theory Spec2Isabelle
  imports Complex_Main "HOL-Library.Multiset"
begin

section \<open>Errors\<close>

text \<open>
  The exceptions that the Python of \<^verbatim>\<open>Simulation.py\<close> can raise: a missing dictionary
  key, \<^verbatim>\<open>min\<close> of an empty sequence, \<^verbatim>\<open>%\<close> by zero and an index out of range.
  \<open>InvalidRequest\<close> is the failure of \<^verbatim>\<open>receive_request\<close> described for the server.
\<close>

datatype error = KeyError | ValueError | ZeroDivisionError | IndexError | InvalidRequest

section \<open>The server\<close>

text \<open>
  Modelled from the spec: the class \<^verbatim>\<open>Server\<close> of \<^verbatim>\<open>Server.py\<close>, which
  \<^verbatim>\<open>Simulation.py\<close> imports. A server owns a name and a bandwidth (both fixed), a FIFO
  queue of pending requests (request id, size in bytes) and the sequence of result
  records. A result record is (request id, server name, latency); its fourth component,
  the elapsed wall-clock time, is a measurement of real time and is left out, and so are
  \<^verbatim>\<open>avg_time\<close> and the throughput that are computed from it.
  The bandwidth of a server is a positive real, so the quotients below are defined.
\<close>

record server =
  name :: string
  bandwidth :: real
  pending_requests :: "(nat \<times> real) list"
  result :: "(nat \<times> string \<times> real) list"

text \<open>Modelled from the spec: \<^verbatim>\<open>reset()\<close> clears pending queue and result history.\<close>

definition reset :: "server \<Rightarrow> server" where
  "reset s = s\<lparr>pending_requests := [], result := []\<rparr>"

text \<open>
  Modelled from the spec: \<^verbatim>\<open>receiveRequest(id, size)\<close> enqueues (id, size) onto the
  pending queue and fails only if the size is not positive.
\<close>

definition receive_request :: "server \<Rightarrow> nat \<Rightarrow> real \<Rightarrow> error + server" where
  "receive_request s rid sz =
     (if sz \<le> 0 then Inl InvalidRequest
      else Inr (s\<lparr>pending_requests := pending_requests s @ [(rid, sz)]\<rparr>))"

text \<open>
  Modelled from the spec: one turn of the loop of \<^verbatim>\<open>process(stopSignal)\<close> on a
  non-empty queue: dequeue one request, compute the latency \<open>size / bandwidth\<close> and
  append the result record. On an empty queue the turn changes nothing.
\<close>

definition process_one :: "server \<Rightarrow> server" where
  "process_one s =
     (case pending_requests s of
        [] \<Rightarrow> s
      | (rid, sz) # q \<Rightarrow>
          s\<lparr>pending_requests := q,
            result := result s @ [(rid, name s, sz / bandwidth s)]\<rparr>)"

text \<open>
  Modelled from the spec: \<^verbatim>\<open>estimateLatency()\<close> is the aggregate of the pending bytes
  over the bandwidth; \<^verbatim>\<open>totalRequests\<close> and \<^verbatim>\<open>avgLatency()\<close> are reducers over
  the result history, the latter 0 when no request was processed.
\<close>

definition estimate_latency :: "server \<Rightarrow> real" where
  "estimate_latency s = sum_list (map snd (pending_requests s)) / bandwidth s"

definition total_requests :: "server \<Rightarrow> nat" where
  "total_requests s = length (result s)"

definition avg_latency :: "server \<Rightarrow> real" where
  "avg_latency s =
     (if result s = [] then 0
      else sum_list (map (\<lambda>(rid, nm, lat). lat) (result s)) / real (length (result s)))"

section \<open>Routing policies\<close>

text \<open>
  A policy returns a reference to one of the server objects of the pool. The model
  returns the position of that object in the pool, which is its identity. The closures
  of \<^verbatim>\<open>round_robin\<close> and \<^verbatim>\<open>weighted_round_robin\<close> keep a counter in a captured cell;
  the model passes the counter in and returns the new one. A call that raises leaves the
  counter as it was, since the increment follows the subscript. The sequence
  \<^verbatim>\<open>weighted_list\<close> is built once from the bandwidths, which never change, so the
  model computes it from the pool at each call.
\<close>

definition round_robin :: "server list \<Rightarrow> nat \<Rightarrow> error + (nat \<times> nat)" where
  "round_robin pl c =
     (if length pl = 0 then Inl ZeroDivisionError
      else Inr (c mod length pl, c + 1))"

text \<open>Python's \<^verbatim>\<open>int(w)\<close> of a number: truncation towards zero.\<close>

definition py_int :: "real \<Rightarrow> int" where
  "py_int w = (if 0 \<le> w then \<lfloor>w\<rfloor> else \<lceil>w\<rceil>)"

text \<open>
  The flattened selection sequence: \<^verbatim>\<open>[i] * int(w)\<close> is the empty list when
  \<^verbatim>\<open>int(w)\<close> is not positive.
\<close>

definition weighted_list :: "real list \<Rightarrow> nat list" where
  "weighted_list ws =
     concat (map (\<lambda>(i, w). replicate (nat (py_int w)) i) (enumerate 0 ws))"

definition weights :: "server list \<Rightarrow> real list" where
  "weights pl = map bandwidth pl"

definition weighted_round_robin :: "server list \<Rightarrow> nat \<Rightarrow> error + (nat \<times> nat)" where
  "weighted_round_robin pl c =
     (let wl = weighted_list (weights pl) in
      if length wl = 0 then Inl ZeroDivisionError
      else Inr (wl ! (c mod length wl), c + 1))"

text \<open>
  Python's \<^verbatim>\<open>min(xs, key=k)\<close>: it raises \<^verbatim>\<open>ValueError\<close> on an empty sequence and
  otherwise scans from the left, replacing the candidate only by an element whose key is
  strictly smaller. \<open>min_loop\<close> is that scan; it carries the position of the element it
  looks at and the position and key of the candidate.
\<close>

fun min_loop :: "('a \<Rightarrow> 'k::linorder) \<Rightarrow> 'a list \<Rightarrow> nat \<Rightarrow> nat \<times> 'k \<Rightarrow> nat \<times> 'k" where
  "min_loop key [] j best = best"
| "min_loop key (x # xs) j (bi, bk) =
     min_loop key xs (j + 1) (if key x < bk then (j, key x) else (bi, bk))"

definition py_min :: "('a \<Rightarrow> 'k::linorder) \<Rightarrow> 'a list \<Rightarrow> error + nat" where
  "py_min key xs =
     (case xs of
        [] \<Rightarrow> Inl ValueError
      | x # rest \<Rightarrow> Inr (fst (min_loop key rest 1 (0, key x))))"

definition least_connections :: "server list \<Rightarrow> error + nat" where
  "least_connections pl = py_min (\<lambda>s. length (pending_requests s)) pl"

definition my_optimizer :: "server list \<Rightarrow> error + nat" where
  "my_optimizer pl = py_min estimate_latency pl"

section \<open>The simulation harness\<close>

text \<open>
  The module keeps one pool of server objects (\<^verbatim>\<open>servers\<close>), the dictionary
  \<^verbatim>\<open>algorithm_map\<close> built over that pool, and the list \<^verbatim>\<open>requests\<close> whose entries
  collect one trace entry per policy. The closures stored in the dictionary are created
  once, so their counter cells live as long as the module: they are part of the state that
  a run starts from and leaves behind. \<open>world\<close> is that state. The harness is always
  called on the pool the closures were built over, and the model has this one pool only.
\<close>

datatype algorithm = RoundRobin | WeightedRR | LeastConn | Optimized

definition algorithm_map :: "(string \<times> algorithm) list" where
  "algorithm_map =
     [(''Round Robin'', RoundRobin), (''Weighted RR'', WeightedRR),
      (''Least Conn'', LeastConn), (''Optimized'', Optimized)]"

record request =
  request_id :: nat
  request_size :: real
  request_algorithm :: "(string \<times> string \<times> real) list"

record world =
  servers :: "server list"
  rr_index :: nat
  idx :: nat
  requests :: "request list"

text \<open>
  A run has one thread per server, the thread of \<^verbatim>\<open>send_requests\<close> and the main
  thread. The state of a run holds the pool, the two counter cells, the items of
  \<^verbatim>\<open>enumerate(request_sizes)\<close> that \<^verbatim>\<open>send_requests\<close> has not yet passed, where each
  thread stands, and the stop flag. \<open>submitted\<close> is a history variable: it lists, in
  order, every request id whose \<^verbatim>\<open>receive_request\<close> call has returned, with the
  position of the server the policy selected for it.
\<close>

datatype request_pc = Ready | Selected nat | Finished | Crashed error

datatype main_pc = JoinRequestThread | SetStop | JoinServerThread nat | Joined

datatype thread = MainThread | RequestThread | ServerThread nat

record run_state =
  pool :: "server list"
  rr :: nat
  wrr :: nat
  todo :: "(nat \<times> real) list"
  request_thread :: request_pc
  stop_event :: bool
  alive :: "bool list"
  main_thread :: main_pc
  submitted :: "(nat \<times> nat) list"

definition select_fn :: "algorithm \<Rightarrow> run_state \<Rightarrow> error + (nat \<times> run_state)" where
  "select_fn alg st =
     (case alg of
        RoundRobin \<Rightarrow>
          (case round_robin (pool st) (rr st) of
             Inl e \<Rightarrow> Inl e
           | Inr (j, c) \<Rightarrow> Inr (j, st\<lparr>rr := c\<rparr>))
      | WeightedRR \<Rightarrow>
          (case weighted_round_robin (pool st) (wrr st) of
             Inl e \<Rightarrow> Inl e
           | Inr (j, c) \<Rightarrow> Inr (j, st\<lparr>wrr := c\<rparr>))
      | LeastConn \<Rightarrow>
          (case least_connections (pool st) of
             Inl e \<Rightarrow> Inl e
           | Inr j \<Rightarrow> Inr (j, st))
      | Optimized \<Rightarrow>
          (case my_optimizer (pool st) of
             Inl e \<Rightarrow> Inl e
           | Inr j \<Rightarrow> Inr (j, st)))"

text \<open>
  One step of \<^verbatim>\<open>send_requests\<close>: either the call of the policy for the next item, or
  the call of \<^verbatim>\<open>receive_request\<close> on the server it returned. An exception ends the
  thread; Python does not pass it on to the thread that joins.
\<close>

definition request_step :: "algorithm \<Rightarrow> run_state \<Rightarrow> run_state" where
  "request_step alg st =
     (case request_thread st of
        Ready \<Rightarrow>
          (case todo st of
             [] \<Rightarrow> st\<lparr>request_thread := Finished\<rparr>
           | (i, sz) # rest \<Rightarrow>
               (case select_fn alg st of
                  Inl e \<Rightarrow> st\<lparr>request_thread := Crashed e\<rparr>
                | Inr (j, st') \<Rightarrow> st'\<lparr>request_thread := Selected j\<rparr>))
      | Selected j \<Rightarrow>
          (case todo st of
             [] \<Rightarrow> st
           | (i, sz) # rest \<Rightarrow>
               (case receive_request (pool st ! j) (i + 1) sz of
                  Inl e \<Rightarrow> st\<lparr>request_thread := Crashed e\<rparr>
                | Inr s' \<Rightarrow>
                    st\<lparr>pool := (pool st)[j := s'], todo := rest,
                       request_thread := Ready,
                       submitted := submitted st @ [(i + 1, j)]\<rparr>))
      | Finished \<Rightarrow> st
      | Crashed e \<Rightarrow> st)"

text \<open>
  Modelled from the spec: one turn of the loop of \<^verbatim>\<open>process(stopSignal)\<close> in the
  thread of server \<open>i\<close>. On a non-empty queue it processes one request; on an empty queue
  it leaves the loop if the stop flag is raised. The worker sees "queue empty" and
  "signal set" consistently, so the test is one step.
\<close>

definition server_step :: "nat \<Rightarrow> run_state \<Rightarrow> run_state" where
  "server_step i st =
     (if i < length (pool st) \<and> i < length (alive st) \<and> alive st ! i then
        (if pending_requests (pool st ! i) \<noteq> [] then
           st\<lparr>pool := (pool st)[i := process_one (pool st ! i)]\<rparr>
         else if stop_event st then st\<lparr>alive := (alive st)[i := False]\<rparr>
         else st)
      else st)"

definition terminated :: "request_pc \<Rightarrow> bool" where
  "terminated pc = (case pc of Finished \<Rightarrow> True | Crashed e \<Rightarrow> True | _ \<Rightarrow> False)"

text \<open>
  The main thread after it has started every thread: \<^verbatim>\<open>request_thread.join()\<close>
  returns once that thread has ended, then \<^verbatim>\<open>stop_event.set()\<close>, then the loop that
  joins the server threads in pool order; \<open>Joined\<close> is the line after that loop.
\<close>

definition main_step :: "run_state \<Rightarrow> run_state" where
  "main_step st =
     (case main_thread st of
        JoinRequestThread \<Rightarrow>
          (if terminated (request_thread st) then st\<lparr>main_thread := SetStop\<rparr> else st)
      | SetStop \<Rightarrow> st\<lparr>stop_event := True, main_thread := JoinServerThread 0\<rparr>
      | JoinServerThread k \<Rightarrow>
          (if k < length (alive st) then
             (if alive st ! k then st else st\<lparr>main_thread := JoinServerThread (k + 1)\<rparr>)
           else st\<lparr>main_thread := Joined\<rparr>)
      | Joined \<Rightarrow> st)"

fun step :: "algorithm \<Rightarrow> run_state \<Rightarrow> thread \<Rightarrow> run_state" where
  "step alg st MainThread = main_step st"
| "step alg st RequestThread = request_step alg st"
| "step alg st (ServerThread i) = server_step i st"

text \<open>
  The start of a run: every server is reset, every server thread is started and the
  thread of \<^verbatim>\<open>send_requests\<close> is started. The server threads find empty queues and
  no stop flag until \<^verbatim>\<open>send_requests\<close> runs, so starting them is one step here.
\<close>

definition start :: "world \<Rightarrow> real list \<Rightarrow> run_state" where
  "start w request_sizes =
     \<lparr>pool = map reset (servers w), rr = rr_index w, wrr = idx w,
      todo = enumerate 0 request_sizes, request_thread = Ready, stop_event = False,
      alive = replicate (length (servers w)) True, main_thread = JoinRequestThread,
      submitted = []\<rparr>"

text \<open>
  The threads run in parallel. A schedule lists which thread takes the next step; a
  thread that cannot move (a join that has not returned, a worker on an empty queue with
  no stop flag, a thread that has ended) leaves the state as it is. Every interleaving of
  the threads is the run of some schedule.
\<close>

definition execute :: "algorithm \<Rightarrow> run_state \<Rightarrow> thread list \<Rightarrow> run_state" where
  "execute alg st sched = foldl (step alg) st sched"

text \<open>
  The threads of a run, from the reset to the end of the joins. The result is \<open>None\<close>
  when the schedule ends before the main thread has joined every thread.
\<close>

definition run_threads :: "algorithm \<Rightarrow> world \<Rightarrow> real list \<Rightarrow> thread list \<Rightarrow> run_state option" where
  "run_threads alg w request_sizes sched =
     (let st = execute alg (start w request_sizes) sched in
      if main_thread st = Joined then Some st else None)"

text \<open>
  Python's subscript \<^verbatim>\<open>xs[i]\<close>: a negative index counts from the end, and an index
  out of range raises \<^verbatim>\<open>IndexError\<close>.
\<close>

definition py_index :: "'a list \<Rightarrow> int \<Rightarrow> error + nat" where
  "py_index xs i =
     (let n = int (length xs); j = (if i < 0 then n + i else i) in
      if 0 \<le> j \<and> j < n then Inr (nat j) else Inl IndexError)"

text \<open>
  The loop that copies the result records of the servers into the trace of the
  requests. It changes the list in place, so an exception leaves the entries that were
  written before it.
\<close>

fun record_results ::
  "string \<Rightarrow> (nat \<times> string \<times> real) list \<Rightarrow> request list \<Rightarrow> error option \<times> request list" where
  "record_results a [] reqs = (None, reqs)"
| "record_results a ((req_id, server_name, latency) # rs) reqs =
     (case py_index reqs (int req_id - 1) of
        Inl e \<Rightarrow> (Some e, reqs)
      | Inr k \<Rightarrow>
          record_results a rs
            (reqs[k := (reqs ! k)\<lparr>request_algorithm :=
                 request_algorithm (reqs ! k) @ [(a, server_name, latency)]\<rparr>]))"

text \<open>
  Modelled from the spec: \<^verbatim>\<open>calculate_metrics\<close> of \<^verbatim>\<open>Server.py\<close>. The average
  latency is the mean of every result's latency across all servers. The fairness index
  is Jain's index over the per-server total request counts, defined as 0 if all counts
  are 0. The spec does not say what the mean of no latency is; it is taken as 0 here, as
  for \<^verbatim>\<open>avgLatency()\<close>.
\<close>

definition average_latency :: "server list \<Rightarrow> real" where
  "average_latency pl =
     (let lats = concat (map (\<lambda>s. map (\<lambda>(rid, nm, lat). lat) (result s)) pl) in
      if lats = [] then 0 else sum_list lats / real (length lats))"

definition fairness_index :: "nat list \<Rightarrow> real" where
  "fairness_index xs =
     (if list_all (\<lambda>x. x = 0) xs then 0
      else (real (sum_list xs))\<^sup>2 / (real (length xs) * real (sum_list (map (\<lambda>x. x\<^sup>2) xs))))"

definition calculate_metrics :: "server list \<Rightarrow> real \<times> real" where
  "calculate_metrics pl = (average_latency pl, fairness_index (map total_requests pl))"

definition summary :: "server list \<Rightarrow> (real \<times> nat) list" where
  "summary pl = map (\<lambda>s. (avg_latency s, total_requests s)) pl"

text \<open>
  \<^verbatim>\<open>run_simulation\<close>. The lookup of an unknown name raises \<^verbatim>\<open>KeyError\<close>; the
  values of the dictionary are the four policies, none of them \<^verbatim>\<open>None\<close>, so the
  \<^verbatim>\<open>ValueError\<close> of the next line cannot be raised. The result is the value returned
  or the exception raised, with the state of the module after the call.
\<close>

definition run_simulation ::
  "world \<Rightarrow> real list \<Rightarrow> string \<Rightarrow> thread list \<Rightarrow> ((error + ((real \<times> real) \<times> (real \<times> nat) list)) \<times> world) option" where
  "run_simulation w request_sizes a sched =
     (case map_of algorithm_map a of
        None \<Rightarrow> Some (Inl KeyError, w)
      | Some alg \<Rightarrow>
          (case run_threads alg w request_sizes sched of
             None \<Rightarrow> None
           | Some st \<Rightarrow>
               (case record_results a (concat (map result (pool st))) (requests w) of
                  (Some e, reqs) \<Rightarrow>
                    Some (Inl e,
                      \<lparr>servers = pool st, rr_index = rr st, idx = wrr st, requests = reqs\<rparr>)
                | (None, reqs) \<Rightarrow>
                    Some (Inr (calculate_metrics (pool st), summary (pool st)),
                      \<lparr>servers = pool st, rr_index = rr st, idx = wrr st, requests = reqs\<rparr>))))"

section \<open>Definitions used in the statements and proofs\<close>

text \<open>
  \<open>calls f c m\<close> is the list of the positions that \<open>m\<close> successive calls of a counter
  policy \<open>f\<close> return, starting with the counter at \<open>c\<close>; an exception ends the sequence.
\<close>

fun calls :: "(nat \<Rightarrow> error + (nat \<times> nat)) \<Rightarrow> nat \<Rightarrow> nat \<Rightarrow> error + nat list" where
  "calls f c 0 = Inr []"
| "calls f c (Suc m) =
     (case f c of
        Inl e \<Rightarrow> Inl e
      | Inr (j, c') \<Rightarrow> (case calls f c' m of Inl e \<Rightarrow> Inl e | Inr js \<Rightarrow> Inr (j # js)))"

text \<open>
  Invariants of a run. \<open>shape_inv\<close>: the pool keeps its length, names and bandwidths.
  \<open>todo_inv\<close>: the requests still to pass are the tail of the enumerated sizes after
  the submitted ones, and the submitted ids are 1, 2, ... in order. \<open>queue_inv\<close>: on
  every server the ids of the result records followed by the ids still pending are the ids
  submitted to that server, in order of submission. \<open>stop_inv\<close>: the stop flag and the
  position of the main thread.
\<close>

definition shape_inv :: "world \<Rightarrow> run_state \<Rightarrow> bool" where
  "shape_inv w st \<longleftrightarrow>
     length (pool st) = length (servers w) \<and> length (alive st) = length (servers w) \<and>
     map name (pool st) = map name (servers w) \<and>
     map bandwidth (pool st) = map bandwidth (servers w)"

definition todo_inv :: "real list \<Rightarrow> run_state \<Rightarrow> bool" where
  "todo_inv request_sizes st \<longleftrightarrow>
     length (submitted st) \<le> length request_sizes \<and>
     todo st = drop (length (submitted st)) (enumerate 0 request_sizes) \<and>
     map fst (submitted st) = map Suc [0..<length (submitted st)] \<and>
     (\<forall>p \<in> set (submitted st). snd p < length (pool st)) \<and>
     (\<forall>j. request_thread st = Selected j \<longrightarrow>
        j < length (pool st) \<and> length (submitted st) < length request_sizes) \<and>
     (request_thread st = Finished \<longrightarrow> length (submitted st) = length request_sizes)"

definition queue_inv :: "run_state \<Rightarrow> bool" where
  "queue_inv st \<longleftrightarrow>
     (\<forall>i<length (pool st).
        map fst (result (pool st ! i)) @ map fst (pending_requests (pool st ! i)) =
          map fst (filter (\<lambda>p. snd p = i) (submitted st)) \<and>
        (\<forall>r \<in> set (result (pool st ! i)). fst (snd r) = name (pool st ! i)))"

definition stop_inv :: "run_state \<Rightarrow> bool" where
  "stop_inv st \<longleftrightarrow>
     (stop_event st \<longleftrightarrow>
        main_thread st \<noteq> JoinRequestThread \<and> main_thread st \<noteq> SetStop) \<and>
     (main_thread st \<noteq> JoinRequestThread \<longrightarrow> terminated (request_thread st)) \<and>
     (\<forall>i<length (pool st). \<not> alive st ! i \<longrightarrow>
        stop_event st \<and> pending_requests (pool st ! i) = []) \<and>
     (\<forall>k. main_thread st = JoinServerThread k \<longrightarrow>
        (\<forall>i<k. i < length (pool st) \<longrightarrow> \<not> alive st ! i)) \<and>
     (main_thread st = Joined \<longrightarrow> (\<forall>i<length (pool st). \<not> alive st ! i))"

definition run_inv :: "world \<Rightarrow> real list \<Rightarrow> run_state \<Rightarrow> bool" where
  "run_inv w request_sizes st \<longleftrightarrow>
     shape_inv w st \<and> todo_inv request_sizes st \<and> queue_inv st \<and> stop_inv st"

text \<open>
  \<open>can_select\<close>: the policy's subscript is defined. \<open>pick\<close> is the position a
  counter policy returns at a counter value, \<open>counter\<close> the cell of the policy in the
  state of a run and \<open>initial_counter\<close> its value when the run starts.
\<close>

definition can_select :: "algorithm \<Rightarrow> server list \<Rightarrow> bool" where
  "can_select alg pl \<longleftrightarrow> (if alg = WeightedRR then weighted_list (weights pl) \<noteq> [] else pl \<noteq> [])"

definition pick :: "algorithm \<Rightarrow> server list \<Rightarrow> nat \<Rightarrow> nat" where
  "pick alg pl c =
     (if alg = WeightedRR
      then weighted_list (weights pl) ! (c mod length (weighted_list (weights pl)))
      else c mod length pl)"

definition counter :: "algorithm \<Rightarrow> run_state \<Rightarrow> nat" where
  "counter alg st = (if alg = WeightedRR then wrr st else rr st)"

definition initial_counter :: "algorithm \<Rightarrow> world \<Rightarrow> nat" where
  "initial_counter alg w = (if alg = WeightedRR then idx w else rr_index w)"

definition counter_inv :: "algorithm \<Rightarrow> world \<Rightarrow> run_state \<Rightarrow> bool" where
  "counter_inv alg w st \<longleftrightarrow>
     map snd (submitted st) =
       map (\<lambda>k. pick alg (servers w) (initial_counter alg w + k)) [0..<length (submitted st)] \<and>
     (request_thread st = Ready \<or> request_thread st = Finished \<longrightarrow>
        counter alg st = initial_counter alg w + length (submitted st)) \<and>
     (\<forall>j. request_thread st = Selected j \<longrightarrow>
        counter alg st = initial_counter alg w + length (submitted st) + 1 \<and>
        j = pick alg (servers w) (initial_counter alg w + length (submitted st)))"

text \<open>
  A measure on the states of a run: in every state before the end of the joins some
  thread has a step that makes it smaller.
\<close>

definition request_measure :: "run_state \<Rightarrow> nat" where
  "request_measure st =
     (case request_thread st of
        Ready \<Rightarrow> 4 * length (todo st) + 2
      | Selected j \<Rightarrow> 4 * length (todo st) + 1
      | Finished \<Rightarrow> 0
      | Crashed e \<Rightarrow> 0)"

definition server_measure :: "run_state \<Rightarrow> nat \<Rightarrow> nat" where
  "server_measure st i = (if alive st ! i then length (pending_requests (pool st ! i)) + 1 else 0)"

definition main_measure :: "run_state \<Rightarrow> nat" where
  "main_measure st =
     (case main_thread st of
        JoinRequestThread \<Rightarrow> length (pool st) + 3
      | SetStop \<Rightarrow> length (pool st) + 2
      | JoinServerThread k \<Rightarrow> (length (pool st) - k) + 1
      | Joined \<Rightarrow> 0)"

definition run_measure :: "run_state \<Rightarrow> nat" where
  "run_measure st =
     request_measure st + main_measure st +
     sum_list (map (server_measure st) [0..<length (pool st)])"

text \<open>
  The positions that a cyclic walk through the list \<open>wl\<close> visits in \<open>m\<close> steps from
  counter value \<open>c\<close>.
\<close>

definition selections :: "nat list \<Rightarrow> nat \<Rightarrow> nat \<Rightarrow> nat list" where
  "selections wl c m = map (\<lambda>k. wl ! (k mod length wl)) [c..<c + m]"


text \<open>Concrete inputs on which the theorems below are instantiated.\<close>

definition example_servers :: "server list" where
  "example_servers =
     [\<lparr>name = ''A'', bandwidth = 1000, pending_requests = [], result = []\<rparr>,
      \<lparr>name = ''B'', bandwidth = 500, pending_requests = [], result = []\<rparr>]"

definition example_world :: world where
  "example_world =
     \<lparr>servers = example_servers, rr_index = 0, idx = 0,
      requests =
        [\<lparr>request_id = 1, request_size = 1000, request_algorithm = []\<rparr>,
         \<lparr>request_id = 2, request_size = 1000, request_algorithm = []\<rparr>,
         \<lparr>request_id = 3, request_size = 1000, request_algorithm = []\<rparr>,
         \<lparr>request_id = 4, request_size = 1000, request_algorithm = []\<rparr>]\<rparr>"

definition example_schedule :: "thread list" where
  "example_schedule =
     [RequestThread, RequestThread, ServerThread 0, RequestThread, RequestThread,
      RequestThread, RequestThread, RequestThread, RequestThread, RequestThread,
      MainThread, MainThread,
      ServerThread 0, ServerThread 0, ServerThread 0,
      ServerThread 1, ServerThread 1, ServerThread 1,
      MainThread, MainThread, MainThread]"

definition empty_world :: world where
  "empty_world = \<lparr>servers = [], rr_index = 0, idx = 0, requests = []\<rparr>"

definition short_schedule :: "thread list" where
  "short_schedule = [RequestThread, MainThread, MainThread, MainThread]"

text \<open>
  The exception of a policy whose subscript is not defined (\<^verbatim>\<open>%\<close> by zero in the
  counter policies, \<^verbatim>\<open>min\<close> of an empty sequence in the others), and the states in
  which no request was submitted because the first call of the policy raised.
\<close>

definition selection_error :: "algorithm \<Rightarrow> error" where
  "selection_error alg =
     (if alg = RoundRobin \<or> alg = WeightedRR then ZeroDivisionError else ValueError)"

definition dispatch_failed :: "algorithm \<Rightarrow> run_state \<Rightarrow> bool" where
  "dispatch_failed alg st \<longleftrightarrow>
     submitted st = [] \<and>
     (request_thread st = Ready \<or> request_thread st = Crashed (selection_error alg))"

definition example_weighted :: "server list" where
  "example_weighted =
     [\<lparr>name = ''A'', bandwidth = 5 / 2, pending_requests = [], result = []\<rparr>,
      \<lparr>name = ''B'', bandwidth = 1 / 2, pending_requests = [], result = []\<rparr>,
      \<lparr>name = ''C'', bandwidth = 1, pending_requests = [], result = []\<rparr>]"

definition example_slow :: "server list" where
  "example_slow =
     [\<lparr>name = ''A'', bandwidth = 1 / 2, pending_requests = [], result = []\<rparr>,
      \<lparr>name = ''B'', bandwidth = 9 / 10, pending_requests = [], result = []\<rparr>]"

definition example_loaded :: "server list" where
  "example_loaded =
     [\<lparr>name = ''A'', bandwidth = 1000, pending_requests = [(1, 5), (2, 5)], result = []\<rparr>,
      \<lparr>name = ''B'', bandwidth = 500, pending_requests = [(3, 5)], result = []\<rparr>,
      \<lparr>name = ''C'', bandwidth = 500, pending_requests = [(4, 5)], result = []\<rparr>]"



text \<open>A pool on which the weighted round-robin policy cannot select, and a schedule for it.\<close>

definition slow_world :: world where
  "slow_world = \<lparr>servers = example_slow, rr_index = 0, idx = 0, requests = []\<rparr>"

definition slow_schedule :: "thread list" where
  "slow_schedule =
     [RequestThread, MainThread, MainThread, ServerThread 0, ServerThread 1,
      MainThread, MainThread, MainThread]"

section \<open>Python's min\<close>

lemma min_loop_inv:
  assumes "j = length ys" "bi < j" "bk = key (ys ! bi)"
    "\<forall>m<j. bk \<le> key (ys ! m)" "\<forall>m<bi. bk < key (ys ! m)"
  shows "case min_loop key xs j (bi, bk) of (ri, rk) \<Rightarrow>
           ri < length (ys @ xs) \<and> rk = key ((ys @ xs) ! ri) \<and>
           (\<forall>m<length (ys @ xs). rk \<le> key ((ys @ xs) ! m)) \<and>
           (\<forall>m<ri. rk < key ((ys @ xs) ! m))"
  using assms
proof (induction xs arbitrary: ys j bi bk)
  case Nil
  then show ?case by simp
next
  case (Cons x xs)
  show ?case
  proof (cases "key x < bk")
    case True
    have "case min_loop key xs (j + 1) (j, key x) of (ri, rk) \<Rightarrow>
           ri < length ((ys @ [x]) @ xs) \<and> rk = key (((ys @ [x]) @ xs) ! ri) \<and>
           (\<forall>m<length ((ys @ [x]) @ xs). rk \<le> key (((ys @ [x]) @ xs) ! m)) \<and>
           (\<forall>m<ri. rk < key (((ys @ [x]) @ xs) ! m))"
    proof (rule Cons.IH)
      show "j + 1 = length (ys @ [x])" using Cons.prems by simp
      show "j < j + 1" by simp
      show "key x = key ((ys @ [x]) ! j)" using Cons.prems by simp
      show "\<forall>m<j + 1. key x \<le> key ((ys @ [x]) ! m)"
        using Cons.prems True by (auto simp: nth_append less_Suc_eq)
      show "\<forall>m<j. key x < key ((ys @ [x]) ! m)"
        using Cons.prems True by (auto simp: nth_append)
    qed
    with True show ?thesis by simp
  next
    case False
    have "case min_loop key xs (j + 1) (bi, bk) of (ri, rk) \<Rightarrow>
           ri < length ((ys @ [x]) @ xs) \<and> rk = key (((ys @ [x]) @ xs) ! ri) \<and>
           (\<forall>m<length ((ys @ [x]) @ xs). rk \<le> key (((ys @ [x]) @ xs) ! m)) \<and>
           (\<forall>m<ri. rk < key (((ys @ [x]) @ xs) ! m))"
    proof (rule Cons.IH)
      show "j + 1 = length (ys @ [x])" using Cons.prems by simp
      show "bi < j + 1" using Cons.prems by simp
      show "bk = key ((ys @ [x]) ! bi)" using Cons.prems by (simp add: nth_append)
      show "\<forall>m<j + 1. bk \<le> key ((ys @ [x]) ! m)"
        using Cons.prems False by (auto simp: nth_append less_Suc_eq)
      show "\<forall>m<bi. bk < key ((ys @ [x]) ! m)"
        using Cons.prems by (auto simp: nth_append)
    qed
    with False show ?thesis by simp
  qed
qed

lemma py_min_first_minimum:
  assumes "xs \<noteq> []"
  shows "\<exists>i. py_min key xs = Inr i \<and> i < length xs \<and>
           (\<forall>m<length xs. key (xs ! i) \<le> key (xs ! m)) \<and>
           (\<forall>m<i. key (xs ! i) < key (xs ! m))"
proof -
  from assms obtain x rest where xs: "xs = x # rest" by (cases xs) auto
  obtain ri rk where r: "min_loop key rest 1 (0, key x) = (ri, rk)" by (cases "min_loop key rest 1 (0, key x)")
  have "case min_loop key rest 1 (0, key x) of (ri, rk) \<Rightarrow>
           ri < length ([x] @ rest) \<and> rk = key (([x] @ rest) ! ri) \<and>
           (\<forall>m<length ([x] @ rest). rk \<le> key (([x] @ rest) ! m)) \<and>
           (\<forall>m<ri. rk < key (([x] @ rest) ! m))"
    by (rule min_loop_inv) auto
  with r xs show ?thesis by (auto simp: py_min_def)
qed

lemma Min_key_nth:
  assumes "i < length xs" "\<forall>m<length xs. key (xs ! i) \<le> key (xs ! m)"
  shows "key (xs ! i) = Min (key ` set xs)"
proof -
  have "Min (key ` set xs) = key (xs ! i)"
  proof (rule Min_eqI)
    show "finite (key ` set xs)" by simp
    show "key (xs ! i) \<in> key ` set xs" using assms(1) by simp
    fix y assume "y \<in> key ` set xs"
    then obtain m where "m < length xs" "y = key (xs ! m)" by (auto simp: in_set_conv_nth)
    with assms(2) show "key (xs ! i) \<le> y" by simp
  qed
  then show ?thesis by simp
qed

section \<open>The flattened selection sequence\<close>

lemma count_list_replicate_eq: "count_list (replicate m k) i = (if i = k then m else 0)"
  by (induction m) auto

lemma count_enumerate_weights:
  "count_list (concat (map (\<lambda>(i, w). replicate (nat (py_int w)) i) (enumerate k ws))) i =
     (if k \<le> i \<and> i < k + length ws then nat (py_int (ws ! (i - k))) else 0)"
proof (induction ws arbitrary: k)
  case Nil
  then show ?case by simp
next
  case (Cons w ws)
  show ?case
  proof (cases "i = k")
    case True
    with Cons.IH [of "Suc k"] show ?thesis by (simp add: count_list_replicate_eq)
  next
    case False
    with Cons.IH [of "Suc k"] show ?thesis
      by (auto simp: count_list_replicate_eq nth_Cons' Suc_diff_le)
  qed
qed

lemma count_weighted_list:
  "count_list (weighted_list ws) i = (if i < length ws then nat (py_int (ws ! i)) else 0)"
  unfolding weighted_list_def by (simp add: count_enumerate_weights)

lemma length_enumerate_weights:
  "length (concat (map (\<lambda>(i, w). replicate (nat (py_int w)) i) (enumerate k ws))) =
     sum_list (map (\<lambda>w. nat (py_int w)) ws)"
  by (induction ws arbitrary: k) auto

lemma length_weighted_list:
  "length (weighted_list ws) = sum_list (map (\<lambda>w. nat (py_int w)) ws)"
  unfolding weighted_list_def by (rule length_enumerate_weights)

lemma weighted_list_member:
  assumes "j \<in> set (weighted_list ws)"
  shows "j < length ws \<and> 0 < py_int (ws ! j)"
proof -
  from assms have "count_list (weighted_list ws) j \<noteq> 0" by (simp add: count_list_0_iff)
  then show ?thesis by (auto simp: count_weighted_list split: if_splits)
qed

lemma sum_nat_py_int:
  assumes "\<forall>w \<in> set ws. 0 \<le> w"
  shows "int (sum_list (map (\<lambda>w. nat (py_int w)) ws)) = sum_list (map py_int ws)"
  using assms by (induction ws) (auto simp: py_int_def)

lemma count_list_rotate1: "count_list (rotate1 xs) i = count_list xs i"
  by (cases xs) auto

lemma count_list_rotate: "count_list (rotate n xs) i = count_list xs i"
  by (induction n) (auto simp: count_list_rotate1)

lemma window_is_rotation:
  assumes "xs \<noteq> []"
  shows "map (\<lambda>k. xs ! (k mod length xs)) [c..<c + length xs] = rotate c xs"
proof (rule nth_equalityI)
  show "length (map (\<lambda>k. xs ! (k mod length xs)) [c..<c + length xs]) = length (rotate c xs)"
    by simp
  fix m assume "m < length (map (\<lambda>k. xs ! (k mod length xs)) [c..<c + length xs])"
  then have m: "m < length xs" by simp
  then show "map (\<lambda>k. xs ! (k mod length xs)) [c..<c + length xs] ! m = rotate c xs ! m"
    by (simp add: nth_rotate add.commute)
qed

lemma calls_round_robin:
  assumes "pl \<noteq> []"
  shows "calls (round_robin pl) c m = Inr (map (\<lambda>k. k mod length pl) [c..<c + m])"
  using assms
proof (induction m arbitrary: c)
  case 0
  then show ?case by simp
next
  case (Suc m)
  have "[c..<c + Suc m] = c # [Suc c..<Suc c + m]" by (simp add: upt_rec)
  with Suc show ?case by (simp add: round_robin_def)
qed

lemma calls_weighted_round_robin:
  assumes "weighted_list (weights pl) \<noteq> []"
  shows "calls (weighted_round_robin pl) c m =
           Inr (map (\<lambda>k. weighted_list (weights pl) ! (k mod length (weighted_list (weights pl))))
                  [c..<c + m])"
  using assms
proof (induction m arbitrary: c)
  case 0
  then show ?case by simp
next
  case (Suc m)
  have "[c..<c + Suc m] = c # [Suc c..<Suc c + m]" by (simp add: upt_rec)
  with Suc show ?case by (simp add: weighted_round_robin_def Let_def)
qed

lemma py_int_below_one: "w < 1 \<Longrightarrow> py_int w \<le> 0"
  unfolding py_int_def by (auto simp: floor_le_iff ceiling_le_iff) 

lemma weighted_list_empty_iff:
  "weighted_list ws = [] \<longleftrightarrow> (\<forall>w \<in> set ws. py_int w \<le> 0)"
proof -
  have "weighted_list ws = [] \<longleftrightarrow> length (weighted_list ws) = 0" by simp
  also have "\<dots> \<longleftrightarrow> (\<forall>w \<in> set ws. py_int w \<le> 0)"
    unfolding length_weighted_list by (induction ws) auto
  finally show ?thesis .
qed

section \<open>The steps of a run\<close>

lemma py_min_range: "py_min key xs = Inr j \<Longrightarrow> j < length xs"
proof (cases "xs = []")
  case True
  assume "py_min key xs = Inr j"
  with True show ?thesis by (simp add: py_min_def)
next
  case False
  assume a: "py_min key xs = Inr j"
  from py_min_first_minimum [OF False, of key] a show ?thesis by auto
qed

lemma weighted_round_robin_range:
  assumes "weighted_round_robin pl c = Inr (j, c')"
  shows "j < length pl \<and> c' = c + 1"
proof -
  let ?wl = "weighted_list (weights pl)"
  from assms have ne: "?wl \<noteq> []" and j: "j = ?wl ! (c mod length ?wl)" and c: "c' = c + 1"
    by (auto simp: weighted_round_robin_def Let_def split: if_splits)
  from ne have "c mod length ?wl < length ?wl" by simp
  then have "j \<in> set ?wl" unfolding j by (rule nth_mem)
  from weighted_list_member [OF this] c show ?thesis by (simp add: weights_def)
qed

lemma select_fn_Inr:
  assumes "select_fn alg st = Inr (j, st')"
  shows "j < length (pool st) \<and> st' = st\<lparr>rr := rr st', wrr := wrr st'\<rparr>"
proof (cases alg)
  case RoundRobin
  with assms show ?thesis
    by (auto simp: select_fn_def round_robin_def split: if_splits)
next
  case WeightedRR
  with assms show ?thesis
    by (auto simp: select_fn_def split: sum.splits dest: weighted_round_robin_range)
next
  case LeastConn
  with assms show ?thesis
    by (auto simp: select_fn_def least_connections_def split: sum.splits dest: py_min_range)
next
  case Optimized
  with assms show ?thesis
    by (auto simp: select_fn_def my_optimizer_def split: sum.splits dest: py_min_range)
qed

lemma select_fn_fields:
  assumes "select_fn alg st = Inr (j, st')"
  shows "pool st' = pool st" "todo st' = todo st" "request_thread st' = request_thread st"
    "stop_event st' = stop_event st" "alive st' = alive st" "main_thread st' = main_thread st"
    "submitted st' = submitted st" "j < length (pool st)"
proof -
  from select_fn_Inr [OF assms] have j: "j < length (pool st)"
    and e: "st' = st\<lparr>rr := rr st', wrr := wrr st'\<rparr>" by auto
  show "j < length (pool st)" by (rule j)
  show "pool st' = pool st" by (subst e) simp
  show "todo st' = todo st" by (subst e) simp
  show "request_thread st' = request_thread st" by (subst e) simp
  show "stop_event st' = stop_event st" by (subst e) simp
  show "alive st' = alive st" by (subst e) simp
  show "main_thread st' = main_thread st" by (subst e) simp
  show "submitted st' = submitted st" by (subst e) simp
qed

lemma map_update_same: "f y = f (xs ! k) \<Longrightarrow> map f (xs[k := y]) = map f xs"
proof (cases "k < length xs")
  case True
  assume "f y = f (xs ! k)"
  with True show ?thesis by (simp add: map_update list_update_same_conv)
next
  case False
  then have "length xs \<le> k" by simp
  then have "xs[k := y] = xs" by (rule list_update_beyond)
  then show ?thesis by simp
qed

lemma receive_request_Inr:
  assumes "receive_request s rid sz = Inr s'"
  shows "s' = s\<lparr>pending_requests := pending_requests s @ [(rid, sz)]\<rparr>" "0 < sz"
  using assms by (auto simp: receive_request_def split: if_splits)

lemma receive_request_Inl:
  assumes "receive_request s rid sz = Inl e"
  shows "e = InvalidRequest" "sz \<le> 0"
  using assms by (auto simp: receive_request_def split: if_splits)

lemma process_one_fields:
  "name (process_one s) = name s" "bandwidth (process_one s) = bandwidth s"
  by (auto simp: process_one_def split: list.splits)

lemma process_one_Cons:
  assumes "pending_requests s = (rid, sz) # q"
  shows "pending_requests (process_one s) = q"
    "result (process_one s) = result s @ [(rid, name s, sz / bandwidth s)]"
  using assms by (auto simp: process_one_def)

lemma request_step_cases [case_names finish select_crash select stuck receive_crash receive ended]:
  obtains
    (finish) "request_thread st = Ready" "todo st = []"
      "request_step alg st = st\<lparr>request_thread := Finished\<rparr>"
  | (select_crash) e i sz rest where "request_thread st = Ready" "todo st = (i, sz) # rest"
      "select_fn alg st = Inl e" "request_step alg st = st\<lparr>request_thread := Crashed e\<rparr>"
  | (select) j st' i sz rest where "request_thread st = Ready" "todo st = (i, sz) # rest"
      "select_fn alg st = Inr (j, st')" "request_step alg st = st'\<lparr>request_thread := Selected j\<rparr>"
  | (stuck) j where "request_thread st = Selected j" "todo st = []" "request_step alg st = st"
  | (receive_crash) j i sz rest e where "request_thread st = Selected j"
      "todo st = (i, sz) # rest" "receive_request (pool st ! j) (i + 1) sz = Inl e"
      "request_step alg st = st\<lparr>request_thread := Crashed e\<rparr>"
  | (receive) j i sz rest s' where "request_thread st = Selected j"
      "todo st = (i, sz) # rest" "receive_request (pool st ! j) (i + 1) sz = Inr s'"
      "request_step alg st =
         st\<lparr>pool := (pool st)[j := s'], todo := rest, request_thread := Ready,
            submitted := submitted st @ [(i + 1, j)]\<rparr>"
  | (ended) "terminated (request_thread st)" "request_step alg st = st"
proof (cases "request_thread st")
  case Ready
  show ?thesis
  proof (cases "todo st")
    case Nil
    with Ready show ?thesis by (intro finish) (simp_all add: request_step_def)
  next
    case (Cons p rest)
    obtain i sz where p: "p = (i, sz)" by (cases p)
    show ?thesis
    proof (cases "select_fn alg st")
      case (Inl e)
      with Ready Cons p show ?thesis
        by (intro select_crash [of i sz rest e]) (simp_all add: request_step_def)
    next
      case (Inr r)
      obtain j st' where r: "r = (j, st')" by (cases r)
      with Inr Ready Cons p show ?thesis
        by (intro select [of i sz rest j st']) (simp_all add: request_step_def)
    qed
  qed
next
  case (Selected j)
  show ?thesis
  proof (cases "todo st")
    case Nil
    with Selected show ?thesis by (intro stuck [of j]) (simp_all add: request_step_def)
  next
    case (Cons p rest)
    obtain i sz where p: "p = (i, sz)" by (cases p)
    show ?thesis
    proof (cases "receive_request (pool st ! j) (i + 1) sz")
      case (Inl e)
      with Selected Cons p show ?thesis
        by (intro receive_crash [of j i sz rest e]) (simp_all add: request_step_def)
    next
      case (Inr s')
      with Selected Cons p show ?thesis
        by (intro receive [of j i sz rest s']) (simp_all add: request_step_def)
    qed
  qed
next
  case Finished
  then show ?thesis by (intro ended) (simp_all add: request_step_def terminated_def)
next
  case (Crashed e)
  then show ?thesis by (intro ended) (simp_all add: request_step_def terminated_def)
qed

lemma server_step_cases [case_names work leave idle]:
  obtains
    (work) rid sz q where "i < length (pool st)" "i < length (alive st)" "alive st ! i"
      "pending_requests (pool st ! i) = (rid, sz) # q"
      "server_step i st = st\<lparr>pool := (pool st)[i := process_one (pool st ! i)]\<rparr>"
  | (leave) "i < length (pool st)" "i < length (alive st)" "alive st ! i"
      "pending_requests (pool st ! i) = []" "stop_event st"
      "server_step i st = st\<lparr>alive := (alive st)[i := False]\<rparr>"
  | (idle) "server_step i st = st"
proof (cases "i < length (pool st) \<and> i < length (alive st) \<and> alive st ! i")
  case False
  then have "server_step i st = st" by (auto simp: server_step_def)
  then show ?thesis by (rule idle)
next
  case True
  show ?thesis
  proof (cases "pending_requests (pool st ! i)")
    case Nil
    show ?thesis
    proof (cases "stop_event st")
      case True
      with \<open>i < length (pool st) \<and> i < length (alive st) \<and> alive st ! i\<close> Nil show ?thesis
        by (intro leave) (simp_all add: server_step_def)
    next
      case False
      with Nil have "server_step i st = st" by (simp add: server_step_def)
      then show ?thesis by (rule idle)
    qed
  next
    case (Cons p q)
    obtain rid sz where "p = (rid, sz)" by (cases p)
    with True Cons show ?thesis
      by (intro work [of rid sz q]) (simp_all add: server_step_def)
  qed
qed

lemma main_step_cases [case_names wait joined set_stop blocked next_server all_joined at_end]:
  obtains
    (wait) "main_thread st = JoinRequestThread" "\<not> terminated (request_thread st)"
      "main_step st = st"
  | (joined) "main_thread st = JoinRequestThread" "terminated (request_thread st)"
      "main_step st = st\<lparr>main_thread := SetStop\<rparr>"
  | (set_stop) "main_thread st = SetStop"
      "main_step st = st\<lparr>stop_event := True, main_thread := JoinServerThread 0\<rparr>"
  | (blocked) k where "main_thread st = JoinServerThread k" "k < length (alive st)"
      "alive st ! k" "main_step st = st"
  | (next_server) k where "main_thread st = JoinServerThread k" "k < length (alive st)"
      "\<not> alive st ! k" "main_step st = st\<lparr>main_thread := JoinServerThread (k + 1)\<rparr>"
  | (all_joined) k where "main_thread st = JoinServerThread k" "length (alive st) \<le> k"
      "main_step st = st\<lparr>main_thread := Joined\<rparr>"
  | (at_end) "main_thread st = Joined" "main_step st = st"
proof (cases "main_thread st")
  case JoinRequestThread
  then show ?thesis
    by (cases "terminated (request_thread st)")
      (auto intro: wait joined simp: main_step_def)
next
  case SetStop
  then show ?thesis by (intro set_stop) (simp_all add: main_step_def)
next
  case (JoinServerThread k)
  show ?thesis
  proof (cases "k < length (alive st)")
    case True
    with JoinServerThread show ?thesis
      by (cases "alive st ! k") (auto intro: blocked next_server simp: main_step_def)
  next
    case False
    with JoinServerThread show ?thesis
      by (intro all_joined [of k]) (simp_all add: main_step_def)
  qed
next
  case Joined
  then show ?thesis by (intro at_end) (simp_all add: main_step_def)
qed

section \<open>The invariants are preserved\<close>

lemma shape_inv_main_step: "shape_inv w st \<Longrightarrow> shape_inv w (main_step st)"
  by (cases rule: main_step_cases [where st = st]) (auto simp: shape_inv_def)

lemma shape_inv_request_step:
  assumes "shape_inv w st"
  shows "shape_inv w (request_step alg st)"
proof (cases rule: request_step_cases [where st = st and alg = alg])
  case (select j st' i sz rest)
  from select_fn_fields [OF select(3)] assms show ?thesis
    unfolding select(4) by (simp add: shape_inv_def)
next
  case (receive j i sz rest s')
  from receive_request_Inr(1) [OF receive(3)]
  have "name s' = name (pool st ! j)" "bandwidth s' = bandwidth (pool st ! j)" by simp_all
  with assms show ?thesis unfolding receive(4) by (simp add: shape_inv_def map_update_same)
qed (use assms in \<open>simp_all add: shape_inv_def\<close>)

lemma shape_inv_server_step:
  assumes "shape_inv w st"
  shows "shape_inv w (server_step i st)"
proof (cases rule: server_step_cases [where st = st and i = i])
  case (work rid sz q)
  with assms show ?thesis by (simp add: shape_inv_def map_update_same process_one_fields)
qed (use assms in \<open>simp_all add: shape_inv_def\<close>)

lemma shape_inv_step: "shape_inv w st \<Longrightarrow> shape_inv w (step alg st t)"
  by (cases t) (simp_all add: shape_inv_main_step shape_inv_request_step shape_inv_server_step)

lemma drop_enumerate_Cons:
  assumes "drop k (enumerate 0 xs) = (i, x) # rest"
  shows "i = k" "k < length xs" "rest = drop (Suc k) (enumerate 0 xs)" "x = xs ! k"
proof -
  show k: "k < length xs"
  proof (rule ccontr)
    assume "\<not> k < length xs"
    then have "drop k (enumerate 0 xs) = []" by simp
    with assms show False by simp
  qed
  then have "drop k (enumerate 0 xs) = enumerate 0 xs ! k # drop (Suc k) (enumerate 0 xs)"
    by (simp add: Cons_nth_drop_Suc)
  also from k have "enumerate 0 xs ! k = (k, xs ! k)" by (simp add: nth_enumerate_eq)
  finally have "(i, x) # rest = (k, xs ! k) # drop (Suc k) (enumerate 0 xs)"
    using assms by simp
  then show "i = k" "rest = drop (Suc k) (enumerate 0 xs)" "x = xs ! k" by simp_all
qed

lemma todo_inv_main_step: "todo_inv request_sizes st \<Longrightarrow> todo_inv request_sizes (main_step st)"
  by (cases rule: main_step_cases [where st = st]) (simp_all add: todo_inv_def)

lemma todo_inv_server_step:
  "todo_inv request_sizes st \<Longrightarrow> todo_inv request_sizes (server_step i st)"
  by (cases rule: server_step_cases [where st = st and i = i]) (simp_all add: todo_inv_def)

lemma todo_inv_request_step:
  assumes "todo_inv request_sizes st"
  shows "todo_inv request_sizes (request_step alg st)"
proof (cases rule: request_step_cases [where st = st and alg = alg])
  case finish
  with assms show ?thesis by (auto simp: todo_inv_def)
next
  case (select_crash e i sz rest)
  with assms show ?thesis by (simp add: todo_inv_def)
next
  case (select j st' i sz rest)
  from assms select(2)
  have "drop (length (submitted st)) (enumerate 0 request_sizes) = (i, sz) # rest"
    by (simp add: todo_inv_def)
  note e = drop_enumerate_Cons(2) [OF this]
  from select_fn_fields [OF select(3)] assms select(1) e show ?thesis
    unfolding select(4) by (simp add: todo_inv_def)
next
  case (stuck j)
  with assms show ?thesis by simp
next
  case (receive_crash j i sz rest e)
  with assms show ?thesis by (simp add: todo_inv_def)
next
  case (receive j i sz rest s')
  let ?k = "length (submitted st)"
  from assms receive(2) have d: "drop ?k (enumerate 0 request_sizes) = (i, sz) # rest"
    by (simp add: todo_inv_def)
  note e = drop_enumerate_Cons [OF d]
  from assms receive(1) have j: "j < length (pool st)" by (simp add: todo_inv_def)
  from assms have f: "map fst (submitted st) = map Suc [0..<?k]"
    and s: "\<forall>p \<in> set (submitted st). snd p < length (pool st)"
    by (simp_all add: todo_inv_def)
  show ?thesis unfolding receive(4) todo_inv_def
    using e j f s by simp
next
  case ended
  with assms show ?thesis by simp
qed

lemma todo_inv_step: "todo_inv request_sizes st \<Longrightarrow> todo_inv request_sizes (step alg st t)"
  by (cases t) (simp_all add: todo_inv_main_step todo_inv_request_step todo_inv_server_step)

lemma queue_inv_main_step: "queue_inv st \<Longrightarrow> queue_inv (main_step st)"
  by (cases rule: main_step_cases [where st = st]) (simp_all add: queue_inv_def)

lemma queue_inv_request_step:
  assumes "queue_inv st"
  shows "queue_inv (request_step alg st)"
proof (cases rule: request_step_cases [where st = st and alg = alg])
  case (select j st' i sz rest)
  from select_fn_fields [OF select(3)] assms(1) show ?thesis
    unfolding select(4) by (simp add: queue_inv_def)
next
  case (receive j i sz rest s')
  note s' = receive_request_Inr(1) [OF receive(3)]
  have "\<And>m. m < length (pool st) \<Longrightarrow>
      map fst (result ((pool st)[j := s'] ! m)) @ map fst (pending_requests ((pool st)[j := s'] ! m)) =
        map fst (filter (\<lambda>p. snd p = m) (submitted st @ [(i + 1, j)])) \<and>
      (\<forall>r \<in> set (result ((pool st)[j := s'] ! m)). fst (snd r) = name ((pool st)[j := s'] ! m))"
  proof -
    fix m assume m: "m < length (pool st)"
    with assms(1) have q: "map fst (result (pool st ! m)) @ map fst (pending_requests (pool st ! m)) =
          map fst (filter (\<lambda>p. snd p = m) (submitted st))"
      and n: "\<forall>r \<in> set (result (pool st ! m)). fst (snd r) = name (pool st ! m)"
      by (simp_all add: queue_inv_def)
    show "map fst (result ((pool st)[j := s'] ! m)) @ map fst (pending_requests ((pool st)[j := s'] ! m)) =
        map fst (filter (\<lambda>p. snd p = m) (submitted st @ [(i + 1, j)])) \<and>
      (\<forall>r \<in> set (result ((pool st)[j := s'] ! m)). fst (snd r) = name ((pool st)[j := s'] ! m))"
    proof (cases "m = j")
      case True
      with m q n s' show ?thesis by simp
    next
      case False
      with m q n show ?thesis by simp
    qed
  qed
  then show ?thesis unfolding receive(4) queue_inv_def by simp
qed (use assms in \<open>simp_all add: queue_inv_def\<close>)

lemma queue_inv_server_step:
  assumes "queue_inv st"
  shows "queue_inv (server_step i st)"
proof (cases rule: server_step_cases [where st = st and i = i])
  case (work rid sz q)
  note p = process_one_Cons [OF work(4)] process_one_fields [of "pool st ! i"]
  let ?pl = "(pool st)[i := process_one (pool st ! i)]"
  have "\<And>m. m < length (pool st) \<Longrightarrow>
      map fst (result (?pl ! m)) @ map fst (pending_requests (?pl ! m)) =
        map fst (filter (\<lambda>p. snd p = m) (submitted st)) \<and>
      (\<forall>r \<in> set (result (?pl ! m)). fst (snd r) = name (?pl ! m))"
  proof -
    fix m assume m: "m < length (pool st)"
    with assms(1) have q: "map fst (result (pool st ! m)) @ map fst (pending_requests (pool st ! m)) =
          map fst (filter (\<lambda>p. snd p = m) (submitted st))"
      and n: "\<forall>r \<in> set (result (pool st ! m)). fst (snd r) = name (pool st ! m)"
      by (simp_all add: queue_inv_def)
    show "map fst (result (?pl ! m)) @ map fst (pending_requests (?pl ! m)) =
        map fst (filter (\<lambda>p. snd p = m) (submitted st)) \<and>
      (\<forall>r \<in> set (result (?pl ! m)). fst (snd r) = name (?pl ! m))"
    proof (cases "m = i")
      case True
      with m q n p work(4) show ?thesis by auto
    next
      case False
      with m q n show ?thesis by simp
    qed
  qed
  then show ?thesis unfolding work(5) queue_inv_def by simp
qed (use assms in \<open>simp_all add: queue_inv_def\<close>)

lemma queue_inv_step: "queue_inv st \<Longrightarrow> queue_inv (step alg st t)"
  by (cases t) (simp_all add: queue_inv_main_step queue_inv_request_step queue_inv_server_step)

lemma stop_inv_running:
  assumes "stop_inv st" "\<not> terminated (request_thread st)"
  shows "main_thread st = JoinRequestThread" "\<not> stop_event st"
    "\<forall>i<length (pool st). alive st ! i"
  using assms by (auto simp: stop_inv_def)

lemma stop_inv_runningI:
  assumes "main_thread st = JoinRequestThread" "\<not> stop_event st"
    "\<forall>i<length (pool st). alive st ! i"
  shows "stop_inv st"
  using assms by (simp add: stop_inv_def)

lemma stop_inv_main_step:
  assumes "stop_inv st" "shape_inv w st"
  shows "stop_inv (main_step st)"
proof (cases rule: main_step_cases [where st = st])
  case (all_joined k)
  from assms(2) have "length (alive st) = length (pool st)" by (simp add: shape_inv_def)
  with all_joined assms(1) show ?thesis by (auto simp: stop_inv_def)
next
  case (next_server k)
  with assms(1) show ?thesis by (auto simp: stop_inv_def less_Suc_eq)
qed (use assms(1) in \<open>auto simp: stop_inv_def\<close>)

lemma stop_inv_request_step:
  assumes "stop_inv st"
  shows "stop_inv (request_step alg st)"
proof (cases rule: request_step_cases [where st = st and alg = alg])
  case finish
  then have "\<not> terminated (request_thread st)" by (simp add: terminated_def)
  from stop_inv_running [OF assms this] show ?thesis
    unfolding finish(3) by (intro stop_inv_runningI) simp_all
next
  case (select_crash e i sz rest)
  then have "\<not> terminated (request_thread st)" by (simp add: terminated_def)
  from stop_inv_running [OF assms this] show ?thesis
    unfolding select_crash(4) by (intro stop_inv_runningI) simp_all
next
  case (select j st' i sz rest)
  then have "\<not> terminated (request_thread st)" by (simp add: terminated_def)
  from stop_inv_running [OF assms this] select_fn_fields [OF select(3)] show ?thesis
    unfolding select(4) by (intro stop_inv_runningI) simp_all
next
  case (stuck j)
  with assms show ?thesis by simp
next
  case (receive_crash j i sz rest e)
  then have "\<not> terminated (request_thread st)" by (simp add: terminated_def)
  from stop_inv_running [OF assms this] show ?thesis
    unfolding receive_crash(4) by (intro stop_inv_runningI) simp_all
next
  case (receive j i sz rest s')
  then have "\<not> terminated (request_thread st)" by (simp add: terminated_def)
  from stop_inv_running [OF assms this] show ?thesis
    unfolding receive(4) by (intro stop_inv_runningI) simp_all
next
  case ended
  with assms show ?thesis by simp
qed

lemma stop_inv_server_step:
  assumes "stop_inv st"
  shows "stop_inv (server_step i st)"
proof (cases rule: server_step_cases [where st = st and i = i])
  case (work rid sz q)
  with assms show ?thesis by (auto simp: stop_inv_def nth_list_update)
next
  case leave
  with assms show ?thesis by (auto simp: stop_inv_def nth_list_update)
next
  case idle
  with assms show ?thesis by simp
qed

lemma stop_inv_step: "stop_inv st \<Longrightarrow> shape_inv w st \<Longrightarrow> stop_inv (step alg st t)"
  by (cases t) (simp_all add: stop_inv_main_step stop_inv_request_step stop_inv_server_step)

lemma run_inv_step: "run_inv w request_sizes st \<Longrightarrow> run_inv w request_sizes (step alg st t)"
  unfolding run_inv_def
  by (auto intro: shape_inv_step todo_inv_step queue_inv_step stop_inv_step)

lemma run_inv_start: "run_inv w request_sizes (start w request_sizes)"
  unfolding run_inv_def shape_inv_def todo_inv_def queue_inv_def stop_inv_def start_def
  by (simp add: reset_def comp_def)

lemma run_inv_foldl:
  "run_inv w request_sizes st \<Longrightarrow> run_inv w request_sizes (foldl (step alg) st sched)"
  by (induction sched arbitrary: st) (simp_all add: run_inv_step)

lemma run_inv_execute:
  "run_inv w request_sizes (execute alg (start w request_sizes) sched)"
  unfolding execute_def by (rule run_inv_foldl) (rule run_inv_start)

section \<open>The state after the joins\<close>

lemma mset_partition_by_snd:
  "mset (concat (map (\<lambda>i. filter (\<lambda>p. snd p = i) xs) [0..<n])) =
     mset (filter (\<lambda>p. snd p < n) xs)"
proof (induction n)
  case 0
  then show ?case by simp
next
  case (Suc n)
  have "mset (filter (\<lambda>p. snd p < n) xs) + mset (filter (\<lambda>p. snd p = n) xs) =
        mset (filter (\<lambda>p. snd p < Suc n) xs)"
    by (induction xs) (auto simp: less_Suc_eq)
  with Suc show ?case by simp
qed

lemma concat_partition_by_snd:
  assumes "\<forall>p \<in> set xs. snd p < n"
  shows "mset (concat (map (\<lambda>i. filter (\<lambda>p. snd p = i) xs) [0..<n])) = mset xs"
proof -
  from assms have "filter (\<lambda>p. snd p < n) xs = xs" by (simp add: filter_id_conv)
  with mset_partition_by_snd [of xs n] show ?thesis by simp
qed

lemma joined_results:
  assumes "run_inv w request_sizes st" "main_thread st = Joined" "i < length (pool st)"
  shows "pending_requests (pool st ! i) = []"
    "map fst (result (pool st ! i)) = map fst (filter (\<lambda>p. snd p = i) (submitted st))"
proof -
  from assms show p: "pending_requests (pool st ! i) = []"
    by (auto simp: run_inv_def stop_inv_def)
  from assms(1,3) have "map fst (result (pool st ! i)) @ map fst (pending_requests (pool st ! i)) =
      map fst (filter (\<lambda>p. snd p = i) (submitted st))"
    by (simp add: run_inv_def queue_inv_def)
  with p show "map fst (result (pool st ! i)) = map fst (filter (\<lambda>p. snd p = i) (submitted st))"
    by simp
qed

lemma joined_result_ids:
  assumes "run_inv w request_sizes st" "main_thread st = Joined"
  shows "mset (map fst (concat (map result (pool st)))) = mset (map fst (submitted st))"
proof -
  let ?n = "length (pool st)"
  have "map (\<lambda>s. map fst (result s)) (pool st) =
        map (\<lambda>i. map fst (result (pool st ! i))) [0..<?n]"
    by (rule nth_equalityI) simp_all
  also have "\<dots> = map (\<lambda>i. map fst (filter (\<lambda>p. snd p = i) (submitted st))) [0..<?n]"
    using joined_results(2) [OF assms] by simp
  finally have "map fst (concat (map result (pool st))) =
      map fst (concat (map (\<lambda>i. filter (\<lambda>p. snd p = i) (submitted st)) [0..<?n]))"
    by (simp add: map_concat comp_def)
  moreover from assms(1) have "\<forall>p \<in> set (submitted st). snd p < ?n"
    by (simp add: run_inv_def todo_inv_def)
  ultimately have "mset (map fst (concat (map result (pool st)))) =
      image_mset fst (mset (concat (map (\<lambda>i. filter (\<lambda>p. snd p = i) (submitted st)) [0..<?n])))"
    and "mset (concat (map (\<lambda>i. filter (\<lambda>p. snd p = i) (submitted st)) [0..<?n])) =
      mset (submitted st)"
    using concat_partition_by_snd [of "submitted st" ?n] by (simp_all only: mset_map)
  then have "mset (map fst (concat (map result (pool st)))) = image_mset fst (mset (submitted st))"
    by (simp only:)
  then show ?thesis by (simp only: mset_map)
qed

lemma joined_total_requests:
  assumes "run_inv w request_sizes st" "main_thread st = Joined"
  shows "sum_list (map total_requests (pool st)) = length (submitted st)"
proof -
  have "sum_list (map total_requests (pool st)) = length (concat (map result (pool st)))"
    by (simp add: length_concat comp_def total_requests_def [abs_def])
  also have "\<dots> = size (mset (map fst (concat (map result (pool st)))))" by simp
  also have "\<dots> = size (mset (map fst (submitted st)))"
    by (simp only: joined_result_ids [OF assms])
  finally show ?thesis by simp
qed

lemma count_list_Suc_upt:
  "count_list (map Suc [0..<n]) k = (if 1 \<le> k \<and> k \<le> n then 1 else 0)"
  by (induction n) (auto simp: less_Suc_eq_le)

lemma joined_exactly_once:
  assumes "run_inv w request_sizes st" "main_thread st = Joined"
  shows "count_list (map fst (concat (map result (pool st)))) k =
           (if 1 \<le> k \<and> k \<le> length (submitted st) then 1 else 0)"
proof -
  have "count_list (map fst (concat (map result (pool st)))) k =
        count (mset (map fst (concat (map result (pool st))))) k"
    by (simp only: count_mset)
  also have "\<dots> = count (mset (map fst (submitted st))) k"
    by (simp only: joined_result_ids [OF assms])
  also have "\<dots> = count_list (map fst (submitted st)) k" by (simp only: count_mset)
  also from assms(1) have "map fst (submitted st) = map Suc [0..<length (submitted st)]"
    by (simp add: run_inv_def todo_inv_def)
  finally show ?thesis by (simp only: count_list_Suc_upt)
qed

section \<open>Runs in which no policy call and no enqueue raises\<close>

lemma py_min_Inl: "py_min key xs = Inl e \<Longrightarrow> xs = [] \<and> e = ValueError"
  by (auto simp: py_min_def split: list.splits)

lemma select_fn_Inl:
  assumes "select_fn alg st = Inl e"
  shows "\<not> can_select alg (pool st)"
    "e = (if alg = RoundRobin \<or> alg = WeightedRR then ZeroDivisionError else ValueError)"
proof -
  show "\<not> can_select alg (pool st)"
    using assms
    by (cases alg)
      (auto simp: select_fn_def can_select_def round_robin_def weighted_round_robin_def Let_def
        least_connections_def my_optimizer_def
        split: sum.splits if_splits dest: py_min_Inl)
  show "e = (if alg = RoundRobin \<or> alg = WeightedRR then ZeroDivisionError else ValueError)"
    using assms
    by (cases alg)
      (auto simp: select_fn_def round_robin_def weighted_round_robin_def Let_def
        least_connections_def my_optimizer_def
        split: sum.splits if_splits dest: py_min_Inl)
qed

lemma select_fn_cannot:
  assumes "\<not> can_select alg (pool st)"
  shows "select_fn alg st =
           Inl (if alg = RoundRobin \<or> alg = WeightedRR then ZeroDivisionError else ValueError)"
  using assms
  by (cases alg)
    (auto simp: select_fn_def can_select_def round_robin_def weighted_round_robin_def Let_def
      least_connections_def my_optimizer_def py_min_def)

lemma can_select_shape:
  assumes "shape_inv w st"
  shows "can_select alg (pool st) = can_select alg (servers w)"
proof -
  from assms have "weights (pool st) = weights (servers w)" "length (pool st) = length (servers w)"
    by (simp_all add: shape_inv_def weights_def)
  then show ?thesis by (auto simp: can_select_def)
qed

lemma pick_shape:
  assumes "shape_inv w st"
  shows "pick alg (pool st) = pick alg (servers w)"
proof -
  from assms have "weights (pool st) = weights (servers w)" "length (pool st) = length (servers w)"
    by (simp_all add: shape_inv_def weights_def)
  then show ?thesis by (simp add: pick_def fun_eq_iff)
qed

lemma no_crash_step:
  assumes "run_inv w request_sizes st" "can_select alg (servers w)"
    "\<forall>sz \<in> set request_sizes. 0 < sz" "\<forall>e. request_thread st \<noteq> Crashed e"
  shows "\<forall>e. request_thread (step alg st t) \<noteq> Crashed e"
proof (cases t)
  case MainThread
  have "request_thread (main_step st) = request_thread st"
    by (cases rule: main_step_cases [where st = st]) simp_all
  with assms(4) MainThread show ?thesis by simp
next
  case (ServerThread i)
  have "request_thread (server_step i st) = request_thread st"
    by (cases rule: server_step_cases [where st = st and i = i]) simp_all
  with assms(4) ServerThread show ?thesis by simp
next
  case RequestThread
  have "\<forall>e. request_thread (request_step alg st) \<noteq> Crashed e"
  proof (cases rule: request_step_cases [where st = st and alg = alg])
    case (select_crash e i sz rest)
    from assms(1) have "shape_inv w st" by (simp add: run_inv_def)
    from can_select_shape [OF this] assms(2) select_fn_Inl(1) [OF select_crash(3)]
    show ?thesis by simp
  next
    case (receive_crash j i sz rest e)
    from assms(1) receive_crash(2)
    have "drop (length (submitted st)) (enumerate 0 request_sizes) = (i, sz) # rest"
      by (simp add: run_inv_def todo_inv_def)
    from drop_enumerate_Cons(2,4) [OF this] have "sz \<in> set request_sizes" by simp
    with assms(3) receive_request_Inl(2) [OF receive_crash(3)] show ?thesis by auto
  next
    case (select j st' i sz rest)
    then show ?thesis by simp
  qed (use assms(4) in simp_all)
  with RequestThread show ?thesis by simp
qed

lemma no_crash_foldl:
  assumes "can_select alg (servers w)" "\<forall>sz \<in> set request_sizes. 0 < sz"
  shows "run_inv w request_sizes st \<Longrightarrow> \<forall>e. request_thread st \<noteq> Crashed e \<Longrightarrow>
         \<forall>e. request_thread (foldl (step alg) st sched) \<noteq> Crashed e"
proof (induction sched arbitrary: st)
  case Nil
  then show ?case by simp
next
  case (Cons t sched)
  have "\<forall>e. request_thread (foldl (step alg) (step alg st t) sched) \<noteq> Crashed e"
  proof (rule Cons.IH)
    show "run_inv w request_sizes (step alg st t)" using Cons.prems(1) by (rule run_inv_step)
    show "\<forall>e. request_thread (step alg st t) \<noteq> Crashed e"
      using Cons.prems(1) assms Cons.prems(2) by (rule no_crash_step)
  qed
  then show ?case by simp
qed

lemma no_crash_execute:
  assumes "can_select alg (servers w)" "\<forall>sz \<in> set request_sizes. 0 < sz"
  shows "\<forall>e. request_thread (execute alg (start w request_sizes) sched) \<noteq> Crashed e"
  unfolding execute_def
  by (rule no_crash_foldl [OF assms run_inv_start]) (simp add: start_def)

section \<open>The counter policies in a run\<close>

lemma select_fn_counter:
  assumes "select_fn alg st = Inr (j, st')" "alg = RoundRobin \<or> alg = WeightedRR"
  shows "j = pick alg (pool st) (counter alg st)" "counter alg st' = counter alg st + 1"
  using assms
  by (auto simp: select_fn_def pick_def counter_def round_robin_def weighted_round_robin_def
      Let_def split: sum.splits if_splits)

lemma main_step_fields:
  "rr (main_step st) = rr st" "wrr (main_step st) = wrr st"
  "submitted (main_step st) = submitted st" "request_thread (main_step st) = request_thread st"
  "pool (main_step st) = pool st" "todo (main_step st) = todo st"
  by (cases rule: main_step_cases [where st = st]; simp)+

lemma server_step_fields:
  "rr (server_step i st) = rr st" "wrr (server_step i st) = wrr st"
  "submitted (server_step i st) = submitted st"
  "request_thread (server_step i st) = request_thread st"
  "todo (server_step i st) = todo st" "stop_event (server_step i st) = stop_event st"
  "main_thread (server_step i st) = main_thread st"
  by (cases rule: server_step_cases [where st = st and i = i]; simp)+

lemma counter_fields:
  "counter alg (st\<lparr>request_thread := pc\<rparr>) = counter alg st"
  "counter alg (st\<lparr>pool := pl, todo := td, request_thread := pc, submitted := sb\<rparr>) =
     counter alg st"
  "counter alg (main_step st) = counter alg st"
  "counter alg (server_step i st) = counter alg st"
  by (simp_all add: counter_def main_step_fields server_step_fields)

lemma counter_inv_request_step:
  assumes "counter_inv alg w st" "shape_inv w st" "alg = RoundRobin \<or> alg = WeightedRR"
  shows "counter_inv alg w (request_step alg st)"
proof (cases rule: request_step_cases [where st = st and alg = alg])
  case finish
  with assms(1) show ?thesis by (simp add: counter_inv_def counter_fields)
next
  case (select_crash e i sz rest)
  with assms(1) show ?thesis by (simp add: counter_inv_def)
next
  case (select j st' i sz rest)
  from select_fn_counter [OF select(3) assms(3)] pick_shape [OF assms(2), of alg]
  have "j = pick alg (servers w) (counter alg st)" "counter alg st' = counter alg st + 1"
    by simp_all
  then show ?thesis
    using assms(1) select(1) select_fn_fields(7) [OF select(3)]
    unfolding select(4) by (simp add: counter_inv_def counter_fields)
next
  case (stuck j)
  with assms(1) show ?thesis by simp
next
  case (receive_crash j i sz rest e)
  with assms(1) show ?thesis by (simp add: counter_inv_def)
next
  case (receive j i sz rest s')
  with assms(1) show ?thesis
    unfolding receive(4) by (simp add: counter_inv_def counter_fields)
next
  case ended
  with assms(1) show ?thesis by simp
qed

lemma counter_inv_step:
  assumes "counter_inv alg w st" "shape_inv w st" "alg = RoundRobin \<or> alg = WeightedRR"
  shows "counter_inv alg w (step alg st t)"
proof (cases t)
  case MainThread
  with assms(1) show ?thesis by (simp add: counter_inv_def counter_fields main_step_fields)
next
  case RequestThread
  with assms show ?thesis by (simp add: counter_inv_request_step)
next
  case (ServerThread i)
  with assms(1) show ?thesis by (simp add: counter_inv_def counter_fields server_step_fields)
qed

lemma counter_inv_foldl:
  assumes "alg = RoundRobin \<or> alg = WeightedRR"
  shows "run_inv w request_sizes st \<Longrightarrow> counter_inv alg w st \<Longrightarrow>
         counter_inv alg w (foldl (step alg) st sched)"
proof (induction sched arbitrary: st)
  case Nil
  then show ?case by simp
next
  case (Cons t sched)
  have "counter_inv alg w (foldl (step alg) (step alg st t) sched)"
  proof (rule Cons.IH)
    show "run_inv w request_sizes (step alg st t)" using Cons.prems(1) by (rule run_inv_step)
    from Cons.prems(1) have "shape_inv w st" by (simp add: run_inv_def)
    with Cons.prems(2) show "counter_inv alg w (step alg st t)"
      using assms by (rule counter_inv_step)
  qed
  then show ?case by simp
qed

lemma counter_inv_execute:
  assumes "alg = RoundRobin \<or> alg = WeightedRR"
  shows "counter_inv alg w (execute alg (start w request_sizes) sched)"
  unfolding execute_def
  by (rule counter_inv_foldl [OF assms run_inv_start])
    (simp add: counter_inv_def start_def counter_def initial_counter_def)

section \<open>Every run can reach the end of the joins\<close>

lemma sum_list_upt_change:
  fixes f g :: "nat \<Rightarrow> nat"
  assumes "i < n" "\<forall>m<n. m \<noteq> i \<longrightarrow> g m = f m"
  shows "sum_list (map g [0..<n]) + f i = sum_list (map f [0..<n]) + g i"
proof -
  have i: "i \<in> {0..<n}" using assms(1) by simp
  have "sum g ({0..<n} - {i}) = sum f ({0..<n} - {i})"
    by (rule sum.cong) (use assms(2) in auto)
  moreover have "sum g {0..<n} = g i + sum g ({0..<n} - {i})"
    by (rule sum.remove) (use i in auto)
  moreover have "sum f {0..<n} = f i + sum f ({0..<n} - {i})"
    by (rule sum.remove) (use i in auto)
  ultimately show ?thesis by (simp add: interv_sum_list_conv_sum_set_nat)
qed

lemma sum_list_upt_same:
  fixes f g :: "nat \<Rightarrow> nat"
  assumes "\<forall>m<n. g m = f m"
  shows "sum_list (map g [0..<n]) = sum_list (map f [0..<n])"
  by (rule arg_cong [where f = sum_list]) (use assms in simp)

lemma main_measure_cong:
  "main_thread st' = main_thread st \<Longrightarrow> length (pool st') = length (pool st) \<Longrightarrow>
   main_measure st' = main_measure st"
  by (simp add: main_measure_def split: main_pc.splits)

lemma server_sum_cong:
  "pool st' = pool st \<Longrightarrow> alive st' = alive st \<Longrightarrow>
   sum_list (map (server_measure st') [0..<length (pool st')]) =
   sum_list (map (server_measure st) [0..<length (pool st)])"
  by (simp add: server_measure_def [abs_def] cong del: if_weak_cong)

lemma request_progress:
  assumes "run_inv w request_sizes st" "\<not> terminated (request_thread st)"
  shows "run_measure (request_step alg st) < run_measure st"
proof (cases rule: request_step_cases [where st = st and alg = alg])
  case finish
  have "main_measure (st\<lparr>request_thread := Finished\<rparr>) = main_measure st"
    by (rule main_measure_cong) simp_all
  moreover have "sum_list (map (server_measure (st\<lparr>request_thread := Finished\<rparr>))
      [0..<length (pool (st\<lparr>request_thread := Finished\<rparr>))]) =
      sum_list (map (server_measure st) [0..<length (pool st)])"
    by (rule server_sum_cong) simp_all
  ultimately show ?thesis
    unfolding finish(3) run_measure_def using finish(1) by (simp add: request_measure_def)
next
  case (select_crash e i sz rest)
  have "main_measure (st\<lparr>request_thread := Crashed e\<rparr>) = main_measure st"
    by (rule main_measure_cong) simp_all
  moreover have "sum_list (map (server_measure (st\<lparr>request_thread := Crashed e\<rparr>))
      [0..<length (pool (st\<lparr>request_thread := Crashed e\<rparr>))]) =
      sum_list (map (server_measure st) [0..<length (pool st)])"
    by (rule server_sum_cong) simp_all
  ultimately show ?thesis
    unfolding select_crash(4) run_measure_def using select_crash(1)
    by (simp add: request_measure_def)
next
  case (select j st' i sz rest)
  note f = select_fn_fields [OF select(3)]
  have "main_measure (st'\<lparr>request_thread := Selected j\<rparr>) = main_measure st"
    by (rule main_measure_cong) (simp_all add: f)
  moreover have "sum_list (map (server_measure (st'\<lparr>request_thread := Selected j\<rparr>))
      [0..<length (pool (st'\<lparr>request_thread := Selected j\<rparr>))]) =
      sum_list (map (server_measure st) [0..<length (pool st)])"
    by (rule server_sum_cong) (simp_all add: f)
  ultimately show ?thesis
    unfolding select(4) run_measure_def using select(1) f(2)
    by (simp add: request_measure_def)
next
  case (stuck j)
  with assms(1) show ?thesis by (auto simp: run_inv_def todo_inv_def)
next
  case (receive_crash j i sz rest e)
  have "main_measure (st\<lparr>request_thread := Crashed e\<rparr>) = main_measure st"
    by (rule main_measure_cong) simp_all
  moreover have "sum_list (map (server_measure (st\<lparr>request_thread := Crashed e\<rparr>))
      [0..<length (pool (st\<lparr>request_thread := Crashed e\<rparr>))]) =
      sum_list (map (server_measure st) [0..<length (pool st)])"
    by (rule server_sum_cong) simp_all
  ultimately show ?thesis
    unfolding receive_crash(4) run_measure_def using receive_crash(1)
    by (simp add: request_measure_def)
next
  case (receive j i sz rest s')
  let ?st = "st\<lparr>pool := (pool st)[j := s'], todo := rest, request_thread := Ready,
      submitted := submitted st @ [(i + 1, j)]\<rparr>"
  note s' = receive_request_Inr(1) [OF receive(3)]
  from assms(1) receive(1) have j: "j < length (pool st)"
    by (simp add: run_inv_def todo_inv_def)
  have m: "main_measure ?st = main_measure st"
    by (rule main_measure_cong) simp_all
  have "sum_list (map (server_measure ?st) [0..<length (pool st)]) + server_measure st j =
        sum_list (map (server_measure st) [0..<length (pool st)]) + server_measure ?st j"
    by (rule sum_list_upt_change [OF j]) (simp add: server_measure_def)
  moreover have "server_measure ?st j \<le> server_measure st j + 1"
    using j s' by (simp add: server_measure_def)
  ultimately have "sum_list (map (server_measure ?st) [0..<length (pool ?st)]) \<le>
      sum_list (map (server_measure st) [0..<length (pool st)]) + 1"
    by simp
  with m show ?thesis
    unfolding receive(4) run_measure_def using receive(1,2)
    by (simp add: request_measure_def)
next
  case ended
  with assms(2) show ?thesis by simp
qed

lemma main_progress:
  assumes "run_inv w request_sizes st" "terminated (request_thread st)"
    "main_thread st \<noteq> Joined"
    "\<forall>k. main_thread st = JoinServerThread k \<longrightarrow> k < length (pool st) \<longrightarrow> \<not> alive st ! k"
  shows "run_measure (main_step st) < run_measure st"
proof -
  from assms(1) have len: "length (alive st) = length (pool st)"
    by (simp add: run_inv_def shape_inv_def)
  have r: "request_measure (main_step st) = request_measure st"
    by (simp add: request_measure_def main_step_fields cong: request_pc.case_cong)
  have "alive (main_step st) = alive st"
    by (cases rule: main_step_cases [where st = st]) simp_all
  then have s: "sum_list (map (server_measure (main_step st)) [0..<length (pool (main_step st))]) =
      sum_list (map (server_measure st) [0..<length (pool st)])"
    by (intro server_sum_cong) (simp_all add: main_step_fields)
  have "main_measure (main_step st) < main_measure st"
  proof (cases rule: main_step_cases [where st = st])
    case wait
    with assms(2) show ?thesis by simp
  next
    case joined
    then show ?thesis by (simp add: main_measure_def)
  next
    case set_stop
    then show ?thesis by (simp add: main_measure_def)
  next
    case (blocked k)
    with assms(4) len show ?thesis by simp
  next
    case (next_server k)
    with len show ?thesis by (simp add: main_measure_def)
  next
    case (all_joined k)
    then show ?thesis by (simp add: main_measure_def)
  next
    case at_end
    with assms(3) show ?thesis by simp
  qed
  with r s show ?thesis by (simp add: run_measure_def)
qed

lemma server_progress:
  assumes "run_inv w request_sizes st" "main_thread st = JoinServerThread k"
    "k < length (pool st)" "alive st ! k"
  shows "run_measure (server_step k st) < run_measure st"
proof -
  from assms(1) have len: "length (alive st) = length (pool st)"
    by (simp add: run_inv_def shape_inv_def)
  from assms(1,2) have stop: "stop_event st" by (simp add: run_inv_def stop_inv_def)
  have r: "request_measure (server_step k st) = request_measure st"
    by (simp add: request_measure_def server_step_fields cong: request_pc.case_cong)
  show ?thesis
  proof (cases "pending_requests (pool st ! k)")
    case (Cons p q)
    let ?st = "st\<lparr>pool := (pool st)[k := process_one (pool st ! k)]\<rparr>"
    obtain rid sz where p: "p = (rid, sz)" by (cases p)
    from Cons assms(3,4) len have e: "server_step k st = ?st" by (simp add: server_step_def)
    have m: "main_measure ?st = main_measure st" by (rule main_measure_cong) simp_all
    have "sum_list (map (server_measure ?st) [0..<length (pool st)]) + server_measure st k =
          sum_list (map (server_measure st) [0..<length (pool st)]) + server_measure ?st k"
      by (rule sum_list_upt_change [OF assms(3)]) (simp add: server_measure_def)
    moreover have "server_measure ?st k < server_measure st k"
      using assms(3,4) Cons p process_one_Cons(1) [of "pool st ! k" rid sz q]
      by (simp add: server_measure_def)
    ultimately have "sum_list (map (server_measure ?st) [0..<length (pool ?st)]) <
        sum_list (map (server_measure st) [0..<length (pool st)])"
      by simp
    with m r show ?thesis unfolding run_measure_def e [symmetric] by (simp add: e)
  next
    case Nil
    let ?st = "st\<lparr>alive := (alive st)[k := False]\<rparr>"
    from Nil assms(3,4) len stop have e: "server_step k st = ?st" by (simp add: server_step_def)
    have m: "main_measure ?st = main_measure st" by (rule main_measure_cong) simp_all
    have "sum_list (map (server_measure ?st) [0..<length (pool st)]) + server_measure st k =
          sum_list (map (server_measure st) [0..<length (pool st)]) + server_measure ?st k"
      by (rule sum_list_upt_change [OF assms(3)]) (simp add: server_measure_def)
    moreover have "server_measure ?st k < server_measure st k"
      using assms(3,4) len by (simp add: server_measure_def)
    ultimately have "sum_list (map (server_measure ?st) [0..<length (pool ?st)]) <
        sum_list (map (server_measure st) [0..<length (pool st)])"
      by simp
    with m r show ?thesis unfolding run_measure_def e [symmetric] by (simp add: e)
  qed
qed

lemma some_thread_progresses:
  assumes "run_inv w request_sizes st" "main_thread st \<noteq> Joined"
  shows "\<exists>t. run_measure (step alg st t) < run_measure st"
proof (cases "terminated (request_thread st)")
  case False
  from request_progress [OF assms(1) False, of alg]
  have "run_measure (step alg st RequestThread) < run_measure st" by simp
  then show ?thesis ..
next
  case True
  show ?thesis
  proof (cases "\<exists>k. main_thread st = JoinServerThread k \<and> k < length (pool st) \<and> alive st ! k")
    case True
    then obtain k where "main_thread st = JoinServerThread k" "k < length (pool st)" "alive st ! k"
      by auto
    from server_progress [OF assms(1) this]
    have "run_measure (step alg st (ServerThread k)) < run_measure st" by simp
    then show ?thesis ..
  next
    case False
    then have "\<forall>k. main_thread st = JoinServerThread k \<longrightarrow> k < length (pool st) \<longrightarrow> \<not> alive st ! k"
      by auto
    from main_progress [OF assms(1) \<open>terminated (request_thread st)\<close> assms(2) this]
    have "run_measure (step alg st MainThread) < run_measure st" by simp
    then show ?thesis ..
  qed
qed

lemma some_schedule_joins:
  "run_inv w request_sizes st \<Longrightarrow> \<exists>sched. main_thread (foldl (step alg) st sched) = Joined"
proof (induction "run_measure st" arbitrary: st rule: less_induct)
  case less
  show ?case
  proof (cases "main_thread st = Joined")
    case True
    then have "main_thread (foldl (step alg) st []) = Joined" by simp
    then show ?thesis ..
  next
    case False
    from some_thread_progresses [OF less.prems False, of alg]
    obtain t where t: "run_measure (step alg st t) < run_measure st" ..
    from less.prems have "run_inv w request_sizes (step alg st t)" by (rule run_inv_step)
    from less.hyps [OF t this] obtain sched
      where "main_thread (foldl (step alg) (step alg st t) sched) = Joined" ..
    then have "main_thread (foldl (step alg) st (t # sched)) = Joined" by simp
    then show ?thesis ..
  qed
qed

lemma run_threads_completes: "\<exists>sched st. run_threads alg w request_sizes sched = Some st"
proof -
  from some_schedule_joins [OF run_inv_start, of alg w request_sizes]
  obtain sched where "main_thread (execute alg (start w request_sizes) sched) = Joined"
    unfolding execute_def ..
  then have "run_threads alg w request_sizes sched =
      Some (execute alg (start w request_sizes) sched)"
    by (simp add: run_threads_def)
  then show ?thesis by blast
qed

section \<open>The fairness index\<close>

lemma twice_product_sum_bound:
  fixes x :: real
  shows "2 * x * sum_list ys \<le> real (length ys) * x\<^sup>2 + sum_list (map (\<lambda>y. y\<^sup>2) ys)"
proof (induction ys)
  case Nil
  then show ?case by simp
next
  case (Cons y ys)
  have "2 * x * y \<le> x\<^sup>2 + y\<^sup>2" by (rule sum_squares_bound)
  with Cons show ?case by (simp add: algebra_simps)
qed

lemma square_sum_bound:
  fixes ys :: "real list"
  shows "(sum_list ys)\<^sup>2 \<le> real (length ys) * sum_list (map (\<lambda>y. y\<^sup>2) ys)"
proof (induction ys)
  case Nil
  then show ?case by simp
next
  case (Cons y ys)
  have "(y + sum_list ys)\<^sup>2 = y\<^sup>2 + 2 * y * sum_list ys + (sum_list ys)\<^sup>2"
    by (simp add: power2_sum)
  also have "\<dots> \<le> y\<^sup>2 + (real (length ys) * y\<^sup>2 + sum_list (map (\<lambda>y. y\<^sup>2) ys)) +
      real (length ys) * sum_list (map (\<lambda>y. y\<^sup>2) ys)"
    using twice_product_sum_bound [of y ys] Cons by simp
  also have "\<dots> = real (length (y # ys)) * sum_list (map (\<lambda>y. y\<^sup>2) (y # ys))"
    by (simp add: algebra_simps)
  finally show ?case by simp
qed

lemma real_sum_list: "real (sum_list xs) = sum_list (map real xs)"
  by (induction xs) simp_all

lemma real_sum_squares: "real (sum_list (map (\<lambda>x. x\<^sup>2) xs)) = sum_list (map (\<lambda>y. y\<^sup>2) (map real xs))"
  by (induction xs) simp_all

lemma sum_list_pos_iff: "0 < sum_list (xs :: nat list) \<longleftrightarrow> \<not> list_all (\<lambda>x. x = 0) xs"
  by (induction xs) auto

lemma sum_squares_pos_iff:
  "0 < sum_list (map (\<lambda>x. x\<^sup>2) (xs :: nat list)) \<longleftrightarrow> \<not> list_all (\<lambda>x. x = 0) xs"
  by (induction xs) auto

lemma fairness_index_bounds:
  assumes "\<not> list_all (\<lambda>x. x = 0) xs"
  shows "0 < fairness_index xs" "fairness_index xs \<le> 1"
proof -
  from assms have ne: "xs \<noteq> []" by auto
  then have n: "0 < real (length xs)" by simp
  from assms have "0 < sum_list xs" by (rule iffD2 [OF sum_list_pos_iff])
  then have s: "0 < real (sum_list xs)" by (simp only: of_nat_0_less_iff)
  from assms have "0 < sum_list (map (\<lambda>x. x\<^sup>2) xs)" by (rule iffD2 [OF sum_squares_pos_iff])
  then have q: "0 < real (sum_list (map (\<lambda>x. x\<^sup>2) xs))" by (simp only: of_nat_0_less_iff)
  from n q have d: "0 < real (length xs) * real (sum_list (map (\<lambda>x. x\<^sup>2) xs))" by simp
  from s have "0 < (real (sum_list xs))\<^sup>2" by (rule zero_less_power)
  from this d have "0 < (real (sum_list xs))\<^sup>2 /
      (real (length xs) * real (sum_list (map (\<lambda>x. x\<^sup>2) xs)))"
    by (rule divide_pos_pos)
  with assms show "0 < fairness_index xs" by (simp only: fairness_index_def if_False)
  have "(real (sum_list xs))\<^sup>2 \<le> real (length xs) * real (sum_list (map (\<lambda>x. x\<^sup>2) xs))"
    using square_sum_bound [of "map real xs"]
    unfolding real_sum_squares by (simp add: real_sum_list)
  with d have "(real (sum_list xs))\<^sup>2 /
      (real (length xs) * real (sum_list (map (\<lambda>x. x\<^sup>2) xs))) \<le> 1"
    by (simp only: divide_le_eq_1_pos)
  with assms show "fairness_index xs \<le> 1" by (simp only: fairness_index_def if_False)
qed

lemma fairness_index_equal:
  assumes "xs \<noteq> []" "\<forall>x \<in> set xs. x = c" "c \<noteq> 0"
  shows "fairness_index xs = 1"
proof -
  from assms(2) have xs: "xs = replicate (length xs) c" by (simp add: replicate_length_same)
  from assms(1) have n: "length xs \<noteq> 0" by simp
  have nz: "\<not> list_all (\<lambda>x. x = 0) xs"
    using assms by (cases xs) auto
  have "sum_list xs = length xs * c" by (subst xs) (simp add: sum_list_replicate)
  moreover have "sum_list (map (\<lambda>x. x\<^sup>2) xs) = length xs * c\<^sup>2"
    by (subst xs) (simp add: sum_list_replicate)
  ultimately show ?thesis
    using n assms(3) nz by (simp add: fairness_index_def power2_eq_square)
qed

section \<open>Cyclic walks\<close>

lemma selections_add: "selections wl c (m + m') = selections wl c m @ selections wl (c + m) m'"
proof -
  have "[c..<c + m + m'] = [c..<c + m] @ [c + m..<c + m + m']"
    by (rule upt_add_eq_append) simp
  then have "[c..<c + (m + m')] = [c..<c + m] @ [c + m..<c + m + m']"
    by (simp only: add.assoc)
  then show ?thesis by (simp only: selections_def map_append)
qed

lemma count_selections_window:
  assumes "wl \<noteq> []"
  shows "count_list (selections wl c (length wl)) i = count_list wl i"
  unfolding selections_def window_is_rotation [OF assms] by (rule count_list_rotate)

lemma count_selections_windows:
  assumes "wl \<noteq> []"
  shows "count_list (selections wl c (q * length wl)) i = q * count_list wl i"
proof (induction q arbitrary: c)
  case 0
  then show ?case by (simp add: selections_def)
next
  case (Suc q)
  have "selections wl c (Suc q * length wl) =
        selections wl c (length wl) @ selections wl (c + length wl) (q * length wl)"
    using selections_add [of wl c "length wl" "q * length wl"] by simp
  then show ?case by (simp add: Suc count_selections_window [OF assms])
qed

lemma count_selections_bounds:
  assumes "wl \<noteq> []"
  shows "(m div length wl) * count_list wl i \<le> count_list (selections wl c m) i"
    and "count_list (selections wl c m) i \<le> (m div length wl) * count_list wl i + m mod length wl"
proof -
  let ?L = "length wl"
  have "selections wl c (m div ?L * ?L + m mod ?L) =
        selections wl c (m div ?L * ?L) @ selections wl (c + m div ?L * ?L) (m mod ?L)"
    by (rule selections_add)
  then have "selections wl c m =
        selections wl c (m div ?L * ?L) @ selections wl (c + m div ?L * ?L) (m mod ?L)"
    by (simp only: div_mult_mod_eq)
  then have "count_list (selections wl c m) i =
      count_list (selections wl c (m div ?L * ?L) @
        selections wl (c + m div ?L * ?L) (m mod ?L)) i"
    by (rule arg_cong)
  then have e: "count_list (selections wl c m) i =
      (m div ?L) * count_list wl i + count_list (selections wl (c + m div ?L * ?L) (m mod ?L)) i"
    by (simp only: count_list_append count_selections_windows [OF assms])
  then show "(m div ?L) * count_list wl i \<le> count_list (selections wl c m) i" by simp
  have "count_list (selections wl (c + m div ?L * ?L) (m mod ?L)) i \<le>
        length (selections wl (c + m div ?L * ?L) (m mod ?L))"
    by (rule count_le_length)
  also have "\<dots> = m mod ?L"
    by (simp only: selections_def length_map length_upt add_diff_cancel_left')
  finally show "count_list (selections wl c m) i \<le> (m div ?L) * count_list wl i + m mod ?L"
    using e by simp
qed

lemma scaled_difference:
  fixes n a L q r e m :: nat
  assumes "n = q * a + e" "m = q * L + r"
  shows "real n * real L - real a * real m = real e * real L - real a * real r"
  by (simp add: assms algebra_simps)

lemma count_selections_error:
  assumes "wl \<noteq> []"
  shows "\<bar>real (count_list (selections wl c m) i) * real (length wl) -
          real (count_list wl i) * real m\<bar> \<le> real (length wl) * real (length wl)"
proof -
  let ?L = "length wl" and ?a = "count_list wl i" and ?n = "count_list (selections wl c m) i"
  let ?q = "m div ?L" and ?r = "m mod ?L"
  have m: "m = ?q * ?L + ?r" by simp
  have a: "?a \<le> ?L" by (rule count_le_length)
  from assms have r: "?r < ?L" by simp
  note b = count_selections_bounds [OF assms, where m = m and i = i and c = c]
  define e where "e = ?n - ?q * ?a"
  from b have e: "?n = ?q * ?a + e" "e \<le> ?r" by (simp_all add: e_def)
  have d: "real ?n * real ?L - real ?a * real m = real e * real ?L - real ?a * real ?r"
    by (rule scaled_difference [OF e(1) m])
  have "real e * real ?L \<le> real ?L * real ?L"
    using e(2) r by (simp add: mult_right_mono)
  moreover have "real ?a * real ?r \<le> real ?L * real ?L"
    using a r by (intro mult_mono) simp_all
  moreover have "0 \<le> real e * real ?L" "0 \<le> real ?a * real ?r" by simp_all
  ultimately show ?thesis unfolding d by linarith
qed

lemma selections_frequency:
  assumes "wl \<noteq> []"
  shows "(\<lambda>m. real (count_list (selections wl c m) i) / real m)
           \<longlonglongrightarrow> real (count_list wl i) / real (length wl)"
proof (rule LIMSEQ_I)
  fix r :: real assume r: "0 < r"
  let ?L = "real (length wl)" and ?a = "real (count_list wl i)"
  from assms have L: "0 < ?L" by simp
  obtain no :: nat where no: "?L / r < real no" using reals_Archimedean2 by blast
  have "\<forall>m\<ge>no. norm (real (count_list (selections wl c m) i) / real m - ?a / ?L) < r"
  proof (intro allI impI)
    fix m assume "no \<le> m"
    with no have lm: "?L / r < real m" by simp
    with L r have m: "0 < real m" by (smt (verit) divide_pos_pos)
    let ?n = "real (count_list (selections wl c m) i)"
    have "?n / real m - ?a / ?L = (?n * ?L - ?a * real m) / (real m * ?L)"
      using L m by (simp add: field_simps)
    then have "\<bar>?n / real m - ?a / ?L\<bar> = \<bar>?n * ?L - ?a * real m\<bar> / (real m * ?L)"
      using L m by (simp add: abs_mult)
    also have "\<dots> \<le> (?L * ?L) / (real m * ?L)"
      using count_selections_error [OF assms, of c m i] L m
      by (intro divide_right_mono) simp_all
    also have "\<dots> = ?L / real m" using L by simp
    also have "\<dots> < r" using lm r m by (simp add: field_simps)
    finally show "norm (?n / real m - ?a / ?L) < r" by simp
  qed
  then show "\<exists>no. \<forall>m\<ge>no. norm (real (count_list (selections wl c m) i) / real m - ?a / ?L) < r" ..
qed

section \<open>The claims about runs\<close>

lemma run_threads_Some:
  assumes "run_threads alg w request_sizes sched = Some st"
  shows "st = execute alg (start w request_sizes) sched" "main_thread st = Joined"
    "run_inv w request_sizes st"
proof -
  from assms show st: "st = execute alg (start w request_sizes) sched"
    by (simp add: run_threads_def Let_def split: if_splits)
  from assms show "main_thread st = Joined"
    by (auto simp: run_threads_def Let_def split: if_splits)
  from st show "run_inv w request_sizes st" by (simp add: run_inv_execute)
qed

lemma joined_all_submitted:
  assumes "run_inv w request_sizes st" "main_thread st \<noteq> JoinRequestThread"
    "\<forall>e. request_thread st \<noteq> Crashed e"
  shows "request_thread st = Finished" "length (submitted st) = length request_sizes"
    "todo st = []"
proof -
  from assms(1,2) have "terminated (request_thread st)" by (simp add: run_inv_def stop_inv_def)
  with assms(3) show f: "request_thread st = Finished"
    by (cases "request_thread st") (simp_all add: terminated_def)
  with assms(1) show l: "length (submitted st) = length request_sizes"
    by (simp add: run_inv_def todo_inv_def)
  from assms(1) have "todo st = drop (length (submitted st)) (enumerate 0 request_sizes)"
    by (simp add: run_inv_def todo_inv_def)
  with l show "todo st = []" by simp
qed

lemma submitted_by_counter:
  assumes "alg = RoundRobin \<or> alg = WeightedRR" "st = execute alg (start w request_sizes) sched"
  shows "submitted st =
    map (\<lambda>k. (Suc k, pick alg (servers w) (initial_counter alg w + k))) [0..<length (submitted st)]"
proof (rule nth_equalityI)
  show "length (submitted st) =
    length (map (\<lambda>k. (Suc k, pick alg (servers w) (initial_counter alg w + k)))
      [0..<length (submitted st)])" by simp
  fix i assume i: "i < length (submitted st)"
  from assms(2) have "run_inv w request_sizes st" by (simp add: run_inv_execute)
  then have "map fst (submitted st) = map Suc [0..<length (submitted st)]"
    by (simp add: run_inv_def todo_inv_def)
  then have "map fst (submitted st) ! i = map Suc [0..<length (submitted st)] ! i" by simp
  with i have f: "fst (submitted st ! i) = Suc i" by simp
  from assms have "counter_inv alg w st" by (simp add: counter_inv_execute)
  then have "map snd (submitted st) ! i =
      map (\<lambda>k. pick alg (servers w) (initial_counter alg w + k)) [0..<length (submitted st)] ! i"
    by (simp add: counter_inv_def)
  with i have s: "snd (submitted st ! i) = pick alg (servers w) (initial_counter alg w + i)"
    by simp
  from f s i show "submitted st ! i =
      map (\<lambda>k. (Suc k, pick alg (servers w) (initial_counter alg w + k)))
        [0..<length (submitted st)] ! i"
    by (simp add: prod_eq_iff)
qed

text \<open>
  Claim C3. With the counter of the round-robin policy at its initial value 0, in every
  state of every run the k-th submitted request (ids from 1) was assigned to position
  (k - 1) mod n of the pool, whatever the sizes; with a non-empty pool and positive
  sizes every request of the list is submitted once the run has joined its threads.
\<close>

theorem round_robin_assignment:
  assumes "rr_index w = 0" "st = execute RoundRobin (start w request_sizes) sched"
  shows "submitted st =
      map (\<lambda>k. (Suc k, k mod length (servers w))) [0..<length (submitted st)] \<and>
    (main_thread st = Joined \<and> servers w \<noteq> [] \<and> (\<forall>sz \<in> set request_sizes. 0 < sz) \<longrightarrow>
       length (submitted st) = length request_sizes)"
proof
  from submitted_by_counter [of RoundRobin st w request_sizes sched] assms
  show "submitted st = map (\<lambda>k. (Suc k, k mod length (servers w))) [0..<length (submitted st)]"
    by (simp add: pick_def initial_counter_def)
  show "main_thread st = Joined \<and> servers w \<noteq> [] \<and> (\<forall>sz \<in> set request_sizes. 0 < sz) \<longrightarrow>
       length (submitted st) = length request_sizes"
  proof
    assume a: "main_thread st = Joined \<and> servers w \<noteq> [] \<and> (\<forall>sz \<in> set request_sizes. 0 < sz)"
    then have "\<forall>e. request_thread (execute RoundRobin (start w request_sizes) sched) \<noteq> Crashed e"
      by (intro no_crash_execute) (simp_all add: can_select_def)
    with assms(2) have "\<forall>e. request_thread st \<noteq> Crashed e" by simp
    moreover from a have "main_thread st \<noteq> JoinRequestThread" by simp
    moreover from assms(2) have "run_inv w request_sizes st" by (simp add: run_inv_execute)
    ultimately show "length (submitted st) = length request_sizes"
      by (intro joined_all_submitted(2))
  qed
qed

lemmas example_defs = example_world_def example_servers_def example_schedule_def empty_world_def
  short_schedule_def

lemmas run_defs = run_threads_def execute_def start_def reset_def request_step_def select_fn_def
  round_robin_def receive_request_def server_step_def process_one_def main_step_def
  terminated_def total_requests_def

lemma dispatch_failed_step:
  assumes "run_inv w request_sizes st" "\<not> can_select alg (servers w)" "request_sizes \<noteq> []"
    "dispatch_failed alg st"
  shows "dispatch_failed alg (step alg st t)"
proof (cases t)
  case MainThread
  with assms(4) show ?thesis by (simp add: dispatch_failed_def main_step_fields)
next
  case (ServerThread i)
  with assms(4) show ?thesis by (simp add: dispatch_failed_def server_step_fields)
next
  case RequestThread
  show ?thesis
  proof (cases "request_thread st = Ready")
    case True
    from assms(1,4) have "todo st = enumerate 0 request_sizes"
      by (simp add: run_inv_def todo_inv_def dispatch_failed_def)
    with assms(3) obtain i sz rest where t: "todo st = (i, sz) # rest"
      by (cases request_sizes) auto
    from assms(1) have "shape_inv w st" by (simp add: run_inv_def)
    from can_select_shape [OF this] assms(2) have "\<not> can_select alg (pool st)" by simp
    from select_fn_cannot [OF this] have "select_fn alg st = Inl (selection_error alg)"
      by (simp add: selection_error_def)
    with True t have "request_step alg st = st\<lparr>request_thread := Crashed (selection_error alg)\<rparr>"
      by (simp add: request_step_def)
    with RequestThread assms(4) show ?thesis by (simp add: dispatch_failed_def)
  next
    case False
    with assms(4) have "request_thread st = Crashed (selection_error alg)"
      by (simp add: dispatch_failed_def)
    then have "request_step alg st = st" by (simp add: request_step_def)
    with RequestThread assms(4) show ?thesis by simp
  qed
qed

lemma dispatch_failed_foldl:
  assumes "\<not> can_select alg (servers w)" "request_sizes \<noteq> []"
  shows "run_inv w request_sizes st \<Longrightarrow> dispatch_failed alg st \<Longrightarrow>
         dispatch_failed alg (foldl (step alg) st sched)"
proof (induction sched arbitrary: st)
  case Nil
  then show ?case by simp
next
  case (Cons t sched)
  have "dispatch_failed alg (foldl (step alg) (step alg st t) sched)"
  proof (rule Cons.IH)
    show "run_inv w request_sizes (step alg st t)" using Cons.prems(1) by (rule run_inv_step)
    show "dispatch_failed alg (step alg st t)"
      using Cons.prems(1) assms Cons.prems(2) by (rule dispatch_failed_step)
  qed
  then show ?case by simp
qed

lemma dispatch_failed_run:
  assumes "\<not> can_select alg (servers w)" "request_sizes \<noteq> []"
    "run_threads alg w request_sizes sched = Some st"
  shows "request_thread st = Crashed (selection_error alg)" "submitted st = []"
    "stop_event st"
proof -
  note r = run_threads_Some [OF assms(3)]
  have "dispatch_failed alg (foldl (step alg) (start w request_sizes) sched)"
    by (rule dispatch_failed_foldl [OF assms(1,2) run_inv_start])
      (simp add: dispatch_failed_def start_def)
  with r(1) have d: "dispatch_failed alg st" by (simp add: execute_def)
  then show "submitted st = []" by (simp add: dispatch_failed_def)
  from r(2,3) have t: "terminated (request_thread st)" and s: "stop_event st"
    by (simp_all add: run_inv_def stop_inv_def)
  from s show "stop_event st" .
  from d t show "request_thread st = Crashed (selection_error alg)"
    by (auto simp: dispatch_failed_def terminated_def)
qed

text \<open>
  Claim C4, as amended. With an empty pool and a non-empty list of sizes, every run that
  reaches the end of the joins has started no server thread and submitted no request:
  the first call of the policy raised inside the thread of \<^verbatim>\<open>send_requests\<close>
  (\<^verbatim>\<open>ZeroDivisionError\<close> for the counter policies, \<^verbatim>\<open>ValueError\<close> for the
  others), which ended that thread only; the main thread set the stop flag and went on to
  collect the results.
\<close>

theorem empty_pool_dispatch_error:
  assumes "servers w = []" "request_sizes \<noteq> []"
    "run_threads alg w request_sizes sched = Some st"
  shows "request_thread st = Crashed (selection_error alg) \<and> submitted st = [] \<and>
    pool st = [] \<and> alive st = [] \<and> stop_event st \<and> main_thread st = Joined"
proof -
  from assms(1) have "\<not> can_select alg (servers w)"
    by (simp add: can_select_def weights_def weighted_list_def)
  note d = dispatch_failed_run [OF this assms(2,3)]
  note r = run_threads_Some [OF assms(3)]
  from r(3) assms(1) have "pool st = []" "alive st = []"
    by (simp_all add: run_inv_def shape_inv_def)
  with d r(2) show ?thesis by simp
qed

theorem empty_pool_dispatch_error_witness:
  "run_threads RoundRobin empty_world [500] short_schedule =
     Some (execute RoundRobin (start empty_world [500]) short_schedule) \<and>
   request_thread (execute RoundRobin (start empty_world [500]) short_schedule) =
     Crashed ZeroDivisionError \<and>
   submitted (execute RoundRobin (start empty_world [500]) short_schedule) = []"
proof -
  have r: "run_threads RoundRobin empty_world [500] short_schedule =
     Some (execute RoundRobin (start empty_world [500]) short_schedule)"
    by (simp add: example_defs run_defs)
  have "servers empty_world = []" by (simp add: empty_world_def)
  from empty_pool_dispatch_error [OF this _ r] r show ?thesis
    by (simp add: selection_error_def)
qed

text \<open>
  Claim C4 as stated fails: on an empty pool with one request the threads of the run
  end without an exception in the main thread, which stands at the collection of the
  results; the exception of the policy call stayed in the thread of
  \<^verbatim>\<open>send_requests\<close>.
\<close>

theorem empty_pool_counterexample:
  "run_threads LeastConn empty_world [500] short_schedule =
     Some \<lparr>pool = [], rr = 0, wrr = 0, todo = [(0, 500)],
       request_thread = Crashed ValueError, stop_event = True, alive = [],
       main_thread = Joined, submitted = []\<rparr>"
  by (simp add: example_defs run_defs least_connections_def py_min_def)

theorem round_robin_assignment_witness:
  "submitted (execute RoundRobin (start example_world [1000, 1000, 1000]) example_schedule) =
     [(1, 0), (2, 1), (3, 0)]"
proof -
  have l: "length (submitted
     (execute RoundRobin (start example_world [1000, 1000, 1000]) example_schedule)) = 3"
    by (simp add: example_defs run_defs)
  have "rr_index example_world = 0" by (simp add: example_world_def)
  from round_robin_assignment [OF this refl, of "[1000, 1000, 1000]" example_schedule]
  have "submitted (execute RoundRobin (start example_world [1000, 1000, 1000]) example_schedule) =
      map (\<lambda>k. (Suc k, k mod length (servers example_world))) [0..<3]"
    unfolding l by simp
  also have "\<dots> = [(1, 0), (2, 1), (3, 0)]"
    by (simp add: example_defs upt_rec)
  finally show ?thesis .
qed

section \<open>The claims about the policies and the metrics\<close>

lemma sum_py_int_weights:
  assumes "\<forall>s \<in> set pl. 0 \<le> bandwidth s"
  shows "int (length (weighted_list (weights pl))) = sum_list (map (\<lambda>s. py_int (bandwidth s)) pl)"
proof -
  from assms have "\<forall>w \<in> set (weights pl). 0 \<le> w" by (simp add: weights_def)
  from sum_nat_py_int [OF this] show ?thesis
    by (simp add: length_weighted_list weights_def comp_def)
qed

lemma py_int_nonneg: "0 \<le> w \<Longrightarrow> 0 \<le> py_int w"
  by (simp add: py_int_def)

lemma selections_subset: "wl \<noteq> [] \<Longrightarrow> set (selections wl c m) \<subseteq> set wl"
  by (auto simp: selections_def)

text \<open>
  Claim C5. For a pool of positive bandwidths whose truncated bandwidths have a positive
  sum W: the flattened sequence has length W and holds position i exactly
  \<^verbatim>\<open>int(bandwidth_i)\<close> times; successive calls of the policy walk through it
  cyclically; in every window of W consecutive calls position i is returned exactly
  \<^verbatim>\<open>int(bandwidth_i)\<close> times; the share of position i among the first m calls tends
  to \<^verbatim>\<open>int(bandwidth_i)\<close> / W; and a server whose bandwidth truncates to 0 is never
  returned.
\<close>

theorem weighted_round_robin_cycle:
  assumes "\<forall>s \<in> set pl. 0 < bandwidth s"
    "0 < sum_list (map (\<lambda>s. py_int (bandwidth s)) pl)"
  shows "int (length (weighted_list (weights pl))) =
      sum_list (map (\<lambda>s. py_int (bandwidth s)) pl) \<and>
    (\<forall>i<length pl. int (count_list (weighted_list (weights pl)) i) = py_int (bandwidth (pl ! i))) \<and>
    (\<forall>c m. calls (weighted_round_robin pl) c m =
       Inr (selections (weighted_list (weights pl)) c m)) \<and>
    (\<forall>c. \<forall>i<length pl.
       int (count_list (selections (weighted_list (weights pl)) c
         (length (weighted_list (weights pl)))) i) = py_int (bandwidth (pl ! i))) \<and>
    (\<forall>c. \<forall>i<length pl.
       (\<lambda>m. real (count_list (selections (weighted_list (weights pl)) c m) i) / real m)
         \<longlonglongrightarrow> real_of_int (py_int (bandwidth (pl ! i))) /
              real_of_int (sum_list (map (\<lambda>s. py_int (bandwidth s)) pl))) \<and>
    (\<forall>c m. \<forall>i<length pl. py_int (bandwidth (pl ! i)) = 0 \<longrightarrow>
       i \<notin> set (selections (weighted_list (weights pl)) c m))"
proof -
  let ?wl = "weighted_list (weights pl)"
  let ?W = "sum_list (map (\<lambda>s. py_int (bandwidth s)) pl)"
  from assms(1) have nn: "\<forall>s \<in> set pl. 0 \<le> bandwidth s" by auto
  have len: "int (length ?wl) = ?W" using nn by (rule sum_py_int_weights)
  with assms(2) have ne: "?wl \<noteq> []" by auto
  have cnt: "int (count_list ?wl i) = py_int (bandwidth (pl ! i))" if "i < length pl" for i
  proof -
    from that nn have "0 \<le> bandwidth (pl ! i)" by simp
    then have "0 \<le> py_int (bandwidth (pl ! i))" by (rule py_int_nonneg)
    with that show ?thesis by (simp add: count_weighted_list weights_def)
  qed
  have 1: "\<forall>i<length pl. int (count_list ?wl i) = py_int (bandwidth (pl ! i))"
    using cnt by simp
  have 2: "\<forall>c m. calls (weighted_round_robin pl) c m = Inr (selections ?wl c m)"
    using calls_weighted_round_robin [OF ne] by (simp add: selections_def)
  have 3: "\<forall>c. \<forall>i<length pl.
      int (count_list (selections ?wl c (length ?wl)) i) = py_int (bandwidth (pl ! i))"
    using cnt by (simp add: count_selections_window [OF ne])
  have 4: "\<forall>c. \<forall>i<length pl.
      (\<lambda>m. real (count_list (selections ?wl c m) i) / real m)
        \<longlonglongrightarrow> real_of_int (py_int (bandwidth (pl ! i))) / real_of_int ?W"
  proof (intro allI impI)
    fix c i assume i: "i < length pl"
    have "real (count_list ?wl i) = real_of_int (int (count_list ?wl i))" by simp
    also have "\<dots> = real_of_int (py_int (bandwidth (pl ! i)))" by (simp only: cnt [OF i])
    finally have a: "real (count_list ?wl i) = real_of_int (py_int (bandwidth (pl ! i)))" .
    have "real (length ?wl) = real_of_int (int (length ?wl))" by simp
    also have "\<dots> = real_of_int ?W" by (simp only: len)
    finally have b: "real (length ?wl) = real_of_int ?W" .
    from selections_frequency [OF ne, of c i]
    show "(\<lambda>m. real (count_list (selections ?wl c m) i) / real m)
        \<longlonglongrightarrow> real_of_int (py_int (bandwidth (pl ! i))) / real_of_int ?W"
      by (simp only: a b)
  qed
  have 5: "\<forall>c m. \<forall>i<length pl. py_int (bandwidth (pl ! i)) = 0 \<longrightarrow>
      i \<notin> set (selections ?wl c m)"
  proof (intro allI impI)
    fix c m i assume i: "i < length pl" and z: "py_int (bandwidth (pl ! i)) = 0"
    show "i \<notin> set (selections ?wl c m)"
    proof
      assume "i \<in> set (selections ?wl c m)"
      with selections_subset [OF ne] have "i \<in> set ?wl" by auto
      from weighted_list_member [OF this] i z show False by (simp add: weights_def)
    qed
  qed
  from len 1 2 3 4 5 show ?thesis by (intro conjI)
qed

lemma example_weighted_list: "weighted_list (weights example_weighted) = [0, 0, 2]"
  by (simp add: example_weighted_def weights_def weighted_list_def py_int_def enumerate_eq_zip
      upt_rec numeral_2_eq_2)

theorem weighted_round_robin_cycle_witness:
  "calls (weighted_round_robin example_weighted) 1 3 = Inr [0, 2, 0]"
proof -
  have 1: "\<forall>s \<in> set example_weighted. 0 < bandwidth s"
    by (simp add: example_weighted_def)
  have 2: "0 < sum_list (map (\<lambda>s. py_int (bandwidth s)) example_weighted)"
    by (simp add: example_weighted_def py_int_def)
  from weighted_round_robin_cycle [OF 1 2]
  have "calls (weighted_round_robin example_weighted) 1 3 =
      Inr (selections (weighted_list (weights example_weighted)) 1 3)"
    by blast
  also have "selections (weighted_list (weights example_weighted)) 1 3 = [0, 2, 0]"
    by (simp add: example_weighted_list selections_def upt_rec)
  finally show ?thesis .
qed

text \<open>
  Claim C6. On a non-empty pool \<^verbatim>\<open>least_connections\<close> returns a server whose
  pending queue has the minimum length over the pool, and every server before it in pool
  order has a strictly longer queue: it is the first that achieves the minimum.
\<close>

theorem least_connections_first_minimum:
  assumes "pl \<noteq> []"
  shows "\<exists>i<length pl. least_connections pl = Inr i \<and>
    length (pending_requests (pl ! i)) = Min ((\<lambda>s. length (pending_requests s)) ` set pl) \<and>
    (\<forall>m<length pl. length (pending_requests (pl ! i)) \<le> length (pending_requests (pl ! m))) \<and>
    (\<forall>m<i. length (pending_requests (pl ! i)) < length (pending_requests (pl ! m)))"
proof -
  from py_min_first_minimum [OF assms, of "\<lambda>s. length (pending_requests s)"]
  obtain i where i: "py_min (\<lambda>s. length (pending_requests s)) pl = Inr i" "i < length pl"
    "\<forall>m<length pl. length (pending_requests (pl ! i)) \<le> length (pending_requests (pl ! m))"
    "\<forall>m<i. length (pending_requests (pl ! i)) < length (pending_requests (pl ! m))"
    by blast
  from Min_key_nth [of i pl "\<lambda>s. length (pending_requests s)", OF i(2,3)]
  have "length (pending_requests (pl ! i)) = Min ((\<lambda>s. length (pending_requests s)) ` set pl)" .
  with i show ?thesis by (auto simp: least_connections_def)
qed

theorem least_connections_first_minimum_witness:
  "least_connections example_loaded = Inr 1"
proof -
  have "example_loaded \<noteq> []" by (simp add: example_loaded_def)
  from least_connections_first_minimum [OF this] show ?thesis
    by (simp add: least_connections_def py_min_def example_loaded_def)
qed

text \<open>
  Claim C8. The fairness index of a run is Jain's index of the per-server totals xs: it
  is 0 when all totals are 0; otherwise it is the square of the sum over n times the sum
  of the squares, it lies in (0, 1], and it is 1 when all servers have the same non-zero
  total.
\<close>

theorem fairness_index_jain:
  "snd (calculate_metrics pl) = fairness_index (map total_requests pl) \<and>
   (list_all (\<lambda>x. x = 0) xs \<longrightarrow> fairness_index xs = 0) \<and>
   (\<not> list_all (\<lambda>x. x = 0) xs \<longrightarrow>
      fairness_index xs =
        (real (sum_list xs))\<^sup>2 / (real (length xs) * real (sum_list (map (\<lambda>x. x\<^sup>2) xs))) \<and>
      0 < fairness_index xs \<and> fairness_index xs \<le> 1) \<and>
   (xs \<noteq> [] \<and> (\<forall>x \<in> set xs. x = c) \<and> c \<noteq> 0 \<longrightarrow> fairness_index xs = 1)"
proof (intro conjI impI)
  show "snd (calculate_metrics pl) = fairness_index (map total_requests pl)"
    by (simp add: calculate_metrics_def)
  show "fairness_index xs = 0" if "list_all (\<lambda>x. x = 0) xs"
    using that by (simp add: fairness_index_def)
  show "fairness_index xs =
      (real (sum_list xs))\<^sup>2 / (real (length xs) * real (sum_list (map (\<lambda>x. x\<^sup>2) xs)))"
    if "\<not> list_all (\<lambda>x. x = 0) xs"
    using that by (simp only: fairness_index_def if_False)
  show "0 < fairness_index xs" if "\<not> list_all (\<lambda>x. x = 0) xs"
    using that by (rule fairness_index_bounds)
  show "fairness_index xs \<le> 1" if "\<not> list_all (\<lambda>x. x = 0) xs"
    using that by (rule fairness_index_bounds)
  show "fairness_index xs = 1" if "xs \<noteq> [] \<and> (\<forall>x \<in> set xs. x = c) \<and> c \<noteq> 0"
    using that by (intro fairness_index_equal [of xs c]) simp_all
qed

theorem fairness_index_jain_witness:
  "fairness_index [2, 1] = 9 / 10 \<and> fairness_index [2, 2] = 1 \<and> fairness_index [0, 0] = 0"
proof -
  from fairness_index_jain [of "[]" "[2, 2]" 2] have "fairness_index [2, 2] = 1" by simp
  moreover have "fairness_index [2, 1] = 9 / 10" by (simp add: fairness_index_def)
  moreover have "fairness_index [0, 0] = 0" by (simp add: fairness_index_def)
  ultimately show ?thesis by simp
qed

text \<open>
  Claim C9. A call of \<^verbatim>\<open>run_simulation\<close> with a name that is not a key of
  \<^verbatim>\<open>algorithm_map\<close> raises \<^verbatim>\<open>KeyError\<close> at the lookup, for every schedule,
  and leaves the state of the module (servers, counters, traces) as it was.
\<close>

theorem unknown_policy_fails_first:
  assumes "a \<notin> fst ` set algorithm_map"
  shows "run_simulation w request_sizes a sched = Some (Inl KeyError, w)"
proof -
  from assms have "map_of algorithm_map a = None" by (simp add: map_of_eq_None_iff)
  then show ?thesis by (simp add: run_simulation_def)
qed

theorem unknown_policy_fails_first_witness:
  "run_simulation example_world [1000, 1000] ''Random'' example_schedule =
     Some (Inl KeyError, example_world)"
proof -
  have "''Random'' \<notin> fst ` set algorithm_map" by (simp add: algorithm_map_def)
  then show ?thesis by (rule unknown_policy_fails_first)
qed

text \<open>
  Claim C10. When every bandwidth of the pool is below 1 the flattened sequence is empty
  and every call of the weighted round-robin policy raises \<^verbatim>\<open>ZeroDivisionError\<close>;
  over non-negative bandwidths the policy returns a server exactly when the sum of the
  truncated bandwidths is at least 1; and a run of the harness with such a pool and a
  non-empty list of sizes submits no request.
\<close>

theorem weighted_round_robin_needs_weight:
  "((\<forall>s \<in> set pl. bandwidth s < 1) \<longrightarrow>
      weighted_list (weights pl) = [] \<and>
      (\<forall>c. weighted_round_robin pl c = Inl ZeroDivisionError)) \<and>
   ((\<forall>s \<in> set pl. 0 \<le> bandwidth s) \<longrightarrow>
      ((\<exists>c j c'. weighted_round_robin pl c = Inr (j, c')) \<longleftrightarrow>
       1 \<le> sum_list (map (\<lambda>s. py_int (bandwidth s)) pl))) \<and>
   ((\<forall>s \<in> set (servers w). bandwidth s < 1) \<and> request_sizes \<noteq> [] \<and>
    run_threads WeightedRR w request_sizes sched = Some st \<longrightarrow>
      request_thread st = Crashed ZeroDivisionError \<and> submitted st = [])"
proof (intro conjI impI)
  have e: "weighted_list (weights ql) = []" if "\<forall>s \<in> set ql. bandwidth s < 1" for ql
    unfolding weighted_list_empty_iff using that by (auto simp: weights_def py_int_below_one)
  assume a: "\<forall>s \<in> set pl. bandwidth s < 1"
  from e [OF a] show "weighted_list (weights pl) = []" .
  then show "\<forall>c. weighted_round_robin pl c = Inl ZeroDivisionError"
    by (simp add: weighted_round_robin_def)
next
  assume nn: "\<forall>s \<in> set pl. 0 \<le> bandwidth s"
  have "(\<exists>c j c'. weighted_round_robin pl c = Inr (j, c')) \<longleftrightarrow> weighted_list (weights pl) \<noteq> []"
    by (auto simp: weighted_round_robin_def Let_def)
  also have "\<dots> \<longleftrightarrow> 0 < int (length (weighted_list (weights pl)))" by simp
  also have "\<dots> \<longleftrightarrow> 1 \<le> sum_list (map (\<lambda>s. py_int (bandwidth s)) pl)"
    unfolding sum_py_int_weights [OF nn] by auto
  finally show "(\<exists>c j c'. weighted_round_robin pl c = Inr (j, c')) \<longleftrightarrow>
       1 \<le> sum_list (map (\<lambda>s. py_int (bandwidth s)) pl)" .
next
  assume a: "(\<forall>s \<in> set (servers w). bandwidth s < 1) \<and> request_sizes \<noteq> [] \<and>
    run_threads WeightedRR w request_sizes sched = Some st"
  then have "weighted_list (weights (servers w)) = []"
    unfolding weighted_list_empty_iff by (auto simp: weights_def py_int_below_one)
  then have "\<not> can_select WeightedRR (servers w)" by (simp add: can_select_def)
  from dispatch_failed_run(1,2) [OF this, of request_sizes sched st] a
  show "request_thread st = Crashed ZeroDivisionError" "submitted st = []"
    by (simp_all add: selection_error_def)
qed

theorem weighted_round_robin_needs_weight_witness:
  "weighted_list (weights example_slow) = [] \<and>
   weighted_round_robin example_slow 0 = Inl ZeroDivisionError"
proof -
  have "\<forall>s \<in> set example_slow. bandwidth s < 1" by (simp add: example_slow_def)
  with weighted_round_robin_needs_weight [of example_slow] show ?thesis by blast
qed

section \<open>Two runs in a row\<close>



lemma start_requests_irrelevant:
  "start (w\<lparr>requests := reqs\<rparr>) request_sizes = start w request_sizes"
  by (simp add: start_def)











section \<open>Conservation of requests and the stop flag\<close>

lemma crashed_todo_step:
  assumes "\<forall>e. request_thread st = Crashed e \<longrightarrow> todo st \<noteq> []"
  shows "\<forall>e. request_thread (step alg st t) = Crashed e \<longrightarrow> todo (step alg st t) \<noteq> []"
proof (cases t)
  case MainThread
  with assms show ?thesis by (simp add: main_step_fields)
next
  case (ServerThread i)
  with assms show ?thesis by (simp add: server_step_fields)
next
  case RequestThread
  with assms show ?thesis
    by (auto simp: request_step_def split: request_pc.splits list.splits sum.splits prod.splits)
qed

lemma crashed_todo_foldl:
  "\<forall>e. request_thread st = Crashed e \<longrightarrow> todo st \<noteq> [] \<Longrightarrow>
   \<forall>e. request_thread (foldl (step alg) st sched) = Crashed e \<longrightarrow>
     todo (foldl (step alg) st sched) \<noteq> []"
proof (induction sched arbitrary: st)
  case Nil
  then show ?case by simp
next
  case (Cons t sched)
  from Cons.prems have "\<forall>e. request_thread (step alg st t) = Crashed e \<longrightarrow>
      todo (step alg st t) \<noteq> []"
    by (rule crashed_todo_step)
  from Cons.IH [OF this] show ?case by simp
qed

lemma crashed_todo_execute:
  assumes "request_thread (execute alg (start w request_sizes) sched) = Crashed e"
  shows "todo (execute alg (start w request_sizes) sched) \<noteq> []"
    "length (submitted (execute alg (start w request_sizes) sched)) < length request_sizes"
proof -
  let ?st = "execute alg (start w request_sizes) sched"
  have "\<forall>e. request_thread (start w request_sizes) = Crashed e \<longrightarrow>
      todo (start w request_sizes) \<noteq> []"
    by (simp add: start_def)
  from crashed_todo_foldl [OF this, of alg sched] assms
  show t: "todo ?st \<noteq> []" by (simp add: execute_def)
  have "todo ?st = drop (length (submitted ?st)) (enumerate 0 request_sizes)"
    using run_inv_execute [of w request_sizes alg sched] by (simp add: run_inv_def todo_inv_def)
  with t show "length (submitted ?st) < length request_sizes"
    by (cases "length (submitted ?st) < length request_sizes") simp_all
qed

text \<open>
  Claim C1, as amended. In every run that reaches the end of the joins: the sum of the
  servers' \<^verbatim>\<open>total_requests\<close> equals the number of requests enqueued (those whose
  \<^verbatim>\<open>receive_request\<close> call returned); the enqueued ids are 1, 2, ..., each appears in
  exactly one result record over all servers, no request is left pending, and the result
  ids of a server are exactly the ids the policy selected that server for, in order. When
  the policy's subscript is defined on the pool (a non-empty pool; for weighted
  round-robin a non-empty flattened sequence) and every size is positive, every request
  of the list is enqueued, so the sum of the totals is the length of the list of sizes.
  When the policy's subscript is not defined and the list is not empty, no request is
  enqueued and every total is 0.
\<close>

theorem no_request_lost_or_duplicated:
  assumes "run_threads alg w request_sizes sched = Some st"
  shows "sum_list (map total_requests (pool st)) = length (submitted st) \<and>
    map fst (submitted st) = map Suc [0..<length (submitted st)] \<and>
    (\<forall>i<length (pool st). pending_requests (pool st ! i) = [] \<and>
       map fst (result (pool st ! i)) = map fst (filter (\<lambda>p. snd p = i) (submitted st))) \<and>
    (\<forall>k. count_list (map fst (concat (map result (pool st)))) k =
       (if 1 \<le> k \<and> k \<le> length (submitted st) then 1 else 0)) \<and>
    (\<forall>p \<in> set (submitted st). snd p < length (pool st)) \<and>
    (can_select alg (servers w) \<and> (\<forall>sz \<in> set request_sizes. 0 < sz) \<longrightarrow>
       length (submitted st) = length request_sizes \<and>
       sum_list (map total_requests (pool st)) = length request_sizes) \<and>
    (\<not> can_select alg (servers w) \<and> request_sizes \<noteq> [] \<longrightarrow>
       submitted st = [] \<and> sum_list (map total_requests (pool st)) = 0)"
proof -
  note r = run_threads_Some [OF assms]
  have 1: "sum_list (map total_requests (pool st)) = length (submitted st)"
    using r(3,2) by (rule joined_total_requests)
  have 2: "map fst (submitted st) = map Suc [0..<length (submitted st)]"
    using r(3) by (simp add: run_inv_def todo_inv_def)
  have 3: "\<forall>i<length (pool st). pending_requests (pool st ! i) = [] \<and>
       map fst (result (pool st ! i)) = map fst (filter (\<lambda>p. snd p = i) (submitted st))"
    using joined_results [OF r(3,2)] by simp
  have 4: "\<forall>k. count_list (map fst (concat (map result (pool st)))) k =
       (if 1 \<le> k \<and> k \<le> length (submitted st) then 1 else 0)"
    using joined_exactly_once [OF r(3,2)] by simp
  have 5: "\<forall>p \<in> set (submitted st). snd p < length (pool st)"
    using r(3) by (simp add: run_inv_def todo_inv_def)
  have 6: "can_select alg (servers w) \<and> (\<forall>sz \<in> set request_sizes. 0 < sz) \<longrightarrow>
       length (submitted st) = length request_sizes \<and>
       sum_list (map total_requests (pool st)) = length request_sizes"
  proof
    assume a: "can_select alg (servers w) \<and> (\<forall>sz \<in> set request_sizes. 0 < sz)"
    then have "\<forall>e. request_thread (execute alg (start w request_sizes) sched) \<noteq> Crashed e"
      by (intro no_crash_execute) simp_all
    with r(1) have "\<forall>e. request_thread st \<noteq> Crashed e" by simp
    moreover from r(2) have "main_thread st \<noteq> JoinRequestThread" by simp
    ultimately have "length (submitted st) = length request_sizes"
      using r(3) by (intro joined_all_submitted(2))
    with 1 show "length (submitted st) = length request_sizes \<and>
       sum_list (map total_requests (pool st)) = length request_sizes" by simp
  qed
  have 7: "\<not> can_select alg (servers w) \<and> request_sizes \<noteq> [] \<longrightarrow>
       submitted st = [] \<and> sum_list (map total_requests (pool st)) = 0"
  proof
    assume a: "\<not> can_select alg (servers w) \<and> request_sizes \<noteq> []"
    then have "submitted st = []" using assms by (intro dispatch_failed_run(2)) simp_all
    with 1 show "submitted st = [] \<and> sum_list (map total_requests (pool st)) = 0" by simp
  qed
  from 1 2 3 4 5 6 7 show ?thesis by (intro conjI)
qed

theorem no_request_lost_or_duplicated_witness:
  "run_threads RoundRobin example_world [1000, 1000, 1000] example_schedule =
     Some (execute RoundRobin (start example_world [1000, 1000, 1000]) example_schedule) \<and>
   sum_list (map total_requests
     (pool (execute RoundRobin (start example_world [1000, 1000, 1000]) example_schedule))) = 3 \<and>
   length (submitted
     (execute RoundRobin (start example_world [1000, 1000, 1000]) example_schedule)) = 3"
proof -
  have r: "run_threads RoundRobin example_world [1000, 1000, 1000] example_schedule =
     Some (execute RoundRobin (start example_world [1000, 1000, 1000]) example_schedule)"
    by (simp add: example_defs run_defs)
  have "can_select RoundRobin (servers example_world)"
    by (simp add: can_select_def example_defs)
  with no_request_lost_or_duplicated [OF r] r show ?thesis by simp
qed

text \<open>
  Claim C1 as stated fails: on a non-empty pool whose bandwidths are below 1, with three
  requests of positive size under weighted round-robin, the run joins its threads with no
  request enqueued and every total 0; the first call of the policy raised
  \<^verbatim>\<open>ZeroDivisionError\<close> in the thread of \<^verbatim>\<open>send_requests\<close>.
\<close>

theorem lost_requests_counterexample:
  "servers slow_world \<noteq> [] \<and>
   run_threads WeightedRR slow_world [500, 600, 700] slow_schedule =
     Some \<lparr>pool =
         [\<lparr>name = ''A'', bandwidth = 1 / 2, pending_requests = [], result = []\<rparr>,
          \<lparr>name = ''B'', bandwidth = 9 / 10, pending_requests = [], result = []\<rparr>],
       rr = 0, wrr = 0, todo = [(0, 500), (1, 600), (2, 700)],
       request_thread = Crashed ZeroDivisionError, stop_event = True,
       alive = [False, False], main_thread = Joined, submitted = []\<rparr> \<and>
   sum_list (map total_requests
     [\<lparr>name = ''A'', bandwidth = 1 / 2, pending_requests = [], result = []\<rparr>,
      \<lparr>name = ''B'', bandwidth = 9 / 10, pending_requests = [], result = []\<rparr>]) = 0 \<and>
   length [500, 600, 700 :: real] = 3"
  by (simp add: slow_world_def slow_schedule_def example_slow_def run_defs
    weighted_round_robin_def weighted_list_def weights_def py_int_def)

text \<open>
  Claim C2, as amended. In every state of every run: the stop flag is set only after the
  thread of \<^verbatim>\<open>send_requests\<close> has ended, never between the policy call and the return
  of \<^verbatim>\<open>receive_request\<close>; when that thread ended without an exception every request
  has been enqueued, and when it ended with an exception some request of the list has
  not been enqueued; the flag is set exactly when the main thread has passed
  \<^verbatim>\<open>stop_event.set()\<close>, that is when it waits for the server threads or has joined
  them; a server thread has ended only if the flag is set and its queue is empty; while
  the main thread waits for server thread k every server thread before k has ended; and
  the main thread is past the joins only when every server thread has ended with an
  empty queue.
\<close>

theorem stop_signal_after_last_enqueue:
  assumes "st = execute alg (start w request_sizes) sched"
  shows "(stop_event st \<longrightarrow> terminated (request_thread st)) \<and>
    (\<forall>j. request_thread st = Selected j \<longrightarrow> \<not> stop_event st) \<and>
    (stop_event st \<and> (\<forall>e. request_thread st \<noteq> Crashed e) \<longrightarrow>
       request_thread st = Finished \<and> todo st = [] \<and>
       length (submitted st) = length request_sizes) \<and>
    (\<forall>e. request_thread st = Crashed e \<longrightarrow>
       todo st \<noteq> [] \<and> length (submitted st) < length request_sizes) \<and>
    (stop_event st \<longleftrightarrow> main_thread st \<noteq> JoinRequestThread \<and> main_thread st \<noteq> SetStop) \<and>
    length (alive st) = length (pool st) \<and>
    (\<forall>i<length (pool st). \<not> alive st ! i \<longrightarrow>
       stop_event st \<and> pending_requests (pool st ! i) = []) \<and>
    (\<forall>k. main_thread st = JoinServerThread k \<longrightarrow>
       (\<forall>i<k. i < length (pool st) \<longrightarrow> \<not> alive st ! i)) \<and>
    (main_thread st = Joined \<longrightarrow>
       (\<forall>i<length (pool st). \<not> alive st ! i \<and> pending_requests (pool st ! i) = []))"
proof -
  from assms have inv: "run_inv w request_sizes st" by (simp add: run_inv_execute)
  then have s: "stop_inv st" by (simp add: run_inv_def)
  have 1: "stop_event st \<longrightarrow> terminated (request_thread st)"
    using s by (auto simp: stop_inv_def)
  have 2: "\<forall>j. request_thread st = Selected j \<longrightarrow> \<not> stop_event st"
    using 1 by (auto simp: terminated_def)
  have 3: "stop_event st \<and> (\<forall>e. request_thread st \<noteq> Crashed e) \<longrightarrow>
       request_thread st = Finished \<and> todo st = [] \<and>
       length (submitted st) = length request_sizes"
  proof
    assume a: "stop_event st \<and> (\<forall>e. request_thread st \<noteq> Crashed e)"
    with s have "main_thread st \<noteq> JoinRequestThread" by (auto simp: stop_inv_def)
    from joined_all_submitted [OF inv this] a
    show "request_thread st = Finished \<and> todo st = [] \<and>
       length (submitted st) = length request_sizes" by simp
  qed
  have 4: "\<forall>e. request_thread st = Crashed e \<longrightarrow>
       todo st \<noteq> [] \<and> length (submitted st) < length request_sizes"
    using crashed_todo_execute [of alg w request_sizes sched] assms by blast
  have 5: "stop_event st \<longleftrightarrow> main_thread st \<noteq> JoinRequestThread \<and> main_thread st \<noteq> SetStop"
    using s by (simp add: stop_inv_def)
  have 6: "length (alive st) = length (pool st)"
    using inv by (simp add: run_inv_def shape_inv_def)
  have 7: "\<forall>i<length (pool st). \<not> alive st ! i \<longrightarrow>
       stop_event st \<and> pending_requests (pool st ! i) = []"
    using s by (auto simp: stop_inv_def)
  have 8: "\<forall>k. main_thread st = JoinServerThread k \<longrightarrow>
       (\<forall>i<k. i < length (pool st) \<longrightarrow> \<not> alive st ! i)"
    using s by (auto simp: stop_inv_def)
  have 9: "main_thread st = Joined \<longrightarrow>
       (\<forall>i<length (pool st). \<not> alive st ! i \<and> pending_requests (pool st ! i) = [])"
    using s by (auto simp: stop_inv_def)
  from 1 2 3 4 5 6 7 8 9 show ?thesis by (intro conjI)
qed

theorem stop_signal_after_last_enqueue_witness:
  "stop_event (execute RoundRobin (start example_world [1000, 1000, 1000]) example_schedule) \<and>
   request_thread (execute RoundRobin (start example_world [1000, 1000, 1000]) example_schedule) =
     Finished \<and>
   main_thread (execute RoundRobin (start example_world [1000, 1000, 1000]) example_schedule) =
     Joined \<and>
   alive (execute RoundRobin (start example_world [1000, 1000, 1000]) example_schedule) =
     [False, False] \<and>
   length (submitted
     (execute RoundRobin (start example_world [1000, 1000, 1000]) example_schedule)) = 3"
proof -
  have s: "stop_event (execute RoundRobin (start example_world [1000, 1000, 1000]) example_schedule)"
    by (simp add: example_defs run_defs)
  have f: "request_thread (execute RoundRobin (start example_world [1000, 1000, 1000]) example_schedule) =
     Finished"
    by (simp add: example_defs run_defs)
  have m: "main_thread (execute RoundRobin (start example_world [1000, 1000, 1000]) example_schedule) =
     Joined"
    by (simp add: example_defs run_defs)
  have a: "alive (execute RoundRobin (start example_world [1000, 1000, 1000]) example_schedule) =
     [False, False]"
    by (simp add: example_defs run_defs)
  from stop_signal_after_last_enqueue [OF refl, of RoundRobin example_world
      "[1000, 1000, 1000]" example_schedule] s f m a
  show ?thesis by simp
qed

text \<open>
  Claim C2 as stated fails: on a pool of bandwidths below 1 with two requests under
  weighted round-robin, after the first call of the policy has raised and the main thread
  has taken two steps, the stop flag is set and both requests are still to be enqueued.
\<close>

theorem stop_before_enqueue_counterexample:
  "execute WeightedRR (start slow_world [500, 600]) [RequestThread, MainThread, MainThread] =
     \<lparr>pool =
         [\<lparr>name = ''A'', bandwidth = 1 / 2, pending_requests = [], result = []\<rparr>,
          \<lparr>name = ''B'', bandwidth = 9 / 10, pending_requests = [], result = []\<rparr>],
       rr = 0, wrr = 0, todo = [(0, 500), (1, 600)],
       request_thread = Crashed ZeroDivisionError, stop_event = True,
       alive = [True, True], main_thread = JoinServerThread 0, submitted = []\<rparr>"
  by (simp add: slow_world_def example_slow_def run_defs
    weighted_round_robin_def weighted_list_def weights_def py_int_def)

end
